theory Spec2Isabelle
  imports Main "HOL-Library.Word"
begin

section \<open>The metadata journal (MDLog) of the metadata server\<close>

text \<open>
  A shallow embedding of \<^verbatim>\<open>MDLog.cc\<close> (the second file held by
  \<^verbatim>\<open>src/src/tools/crushtool.cc\<close>, from line 750 on).  Every member function becomes a
  function from the state of the log to an error or the new state.  A failed
  \<^verbatim>\<open>assert\<close> and a division by zero end the process: they are the \<open>Inl\<close> results.

  Positions in the journal are \<^verbatim>\<open>uint64_t\<close>, here 64-bit words.  The event counters are
  \<^verbatim>\<open>int\<close> in the source; they are modelled as unbounded integers (signed overflow is
  undefined in C++ and is not reached by counting events).
\<close>

subsection \<open>Data\<close>

type_synonym u64 = "64 word"
type_synonym inodeno_t = "64 word"
type_synonym ctx = nat
type_synonym utime_t = nat

datatype error =
    AssertFailed string
  | DivideByZero

datatype event_type =
    EVENT_SUBTREEMAP
  | EVENT_IMPORTFINISH
  | EVENT_RESETJOURNAL
  | EVENT_SUBTREEMAP_TEST
  | EVENT_OTHER

text \<open>
  A \<^verbatim>\<open>LogEvent\<close>.  \<open>ev_id\<close> stands for the address of the object (the source compares
  \<^verbatim>\<open>le == cur_event\<close>), \<open>ev_size\<close> for the number of bytes \<^verbatim>\<open>encode_with_header\<close>
  produces for it.
\<close>

record LogEvent =
  ev_id :: nat
  ev_type :: event_type
  ev_size :: nat
  start_off :: u64
  stamp :: utime_t
  ev_segment :: "nat option"

text \<open>
  A \<^verbatim>\<open>LogSegment\<close>.  \<open>seg_id\<close> stands for the address of the heap object: the segment index
  maps offsets to \<^verbatim>\<open>LogSegment*\<close>, and the expiring and expired sets are sets of such
  pointers.  The field \<^verbatim>\<open>end\<close> of the source is \<open>seg_end\<close> here.
\<close>

record LogSegment =
  seg_id :: nat
  offset :: u64
  seg_end :: u64
  seg_num_events :: int

text \<open>An encoded entry of the journal: its length, and the event it decodes to (if any).\<close>

record bufferlist =
  bl_length :: nat
  bl_event :: "LogEvent option"

text \<open>The configuration options (\<^verbatim>\<open>g_conf\<close>) that \<^verbatim>\<open>MDLog.cc\<close> reads.\<close>

record md_config =
  mds_log :: bool
  mds_debug_subtrees :: bool
  mds_log_max_segments :: int
  mds_log_max_events :: int
  mds_log_max_expiring :: int
  mds_log_skip_corrupt_events :: bool

text \<open>
  Modelled from the spec: the \<^verbatim>\<open>Journaler\<close> (the spec's \<open>ObjectJournal\<close>, section 6), whose
  code is in \<^verbatim>\<open>osdc/Journaler.cc\<close> and not among the sources.  It is an append-only stream
  with the four positions \<open>expire_pos\<close>, \<open>read_pos\<close>, \<open>safe_pos\<close>, \<open>write_pos\<close>, a layout
  period, a stream format, an error code and a read-only flag.  \<open>appended\<close> lists the entries appended with
  the offsets they start at; \<open>prefetched\<close> are the entries that can be read now,
  \<open>on_disk\<close> those a later prefetch can bring in; \<open>flush_waiters\<close> are the completions
  registered by \<^verbatim>\<open>wait_for_flush\<close>; \<open>head_writes\<close>, \<open>flushes\<close> and \<open>head_rereads\<close> count
  the calls of \<^verbatim>\<open>write_head\<close>, \<^verbatim>\<open>flush\<close> and \<^verbatim>\<open>reread_head\<close>; \<open>reread_err\<close> is the status
  with which a \<^verbatim>\<open>reread_head\<close> completes and \<open>disk_expire_pos\<close> the expire position that
  the head in the object store then holds.  An entry that cannot be read sets the error.
\<close>

datatype journal_entry =
    Entry bufferlist
  | Unreadable int

record Journaler =
  write_pos :: u64
  read_pos :: u64
  safe_pos :: u64
  expire_pos :: u64
  layout_period :: u64
  stream_format :: int
  j_error :: int
  readonly :: bool
  appended :: "(u64 \<times> bufferlist) list"
  prefetched :: "journal_entry list"
  on_disk :: "journal_entry list"
  flush_waiters :: "ctx list"
  head_writes :: nat
  flushes :: nat
  head_rereads :: nat
  reread_err :: int
  disk_expire_pos :: u64

text \<open>The performance counters of \<^verbatim>\<open>create_logger\<close>.\<close>

record PerfCounters =
  l_mdl_evadd :: int
  l_mdl_evex :: int
  l_mdl_evtrm :: int
  l_mdl_ev :: int
  l_mdl_evexg :: int
  l_mdl_evexd :: int
  l_mdl_segadd :: int
  l_mdl_segex :: int
  l_mdl_segtrm :: int
  l_mdl_seg :: int
  l_mdl_segexg :: int
  l_mdl_segexd :: int
  l_mdl_expos :: int
  l_mdl_wrpos :: int
  l_mdl_rdpos :: int

text \<open>
  Modelled from the spec: the metadata server and its cache (the spec's \<open>MetadataSource\<close>,
  section 6), whose code is not among the sources.  What \<^verbatim>\<open>MDLog.cc\<close> asks of it:
  \<^verbatim>\<open>is_any_replay\<close>, \<^verbatim>\<open>is_resolve\<close>, \<^verbatim>\<open>advance_stray\<close> (counted in \<open>stray\<close>),
  \<^verbatim>\<open>create_subtree_map\<close> (a new event, of encoded size \<open>subtree_map_size\<close>),
  \<^verbatim>\<open>try_to_expire\<close> (whose answers, does the gather have sub-operations, are read from
  \<open>gather_answers\<close>; none left means no sub-operation), \<^verbatim>\<open>mdcache->trim\<close> (counted in
  \<open>cache_trims\<close>), \<^verbatim>\<open>replay\<close> of an event (listed in \<open>replayed\<close>) and \<^verbatim>\<open>suicide\<close>.
\<close>

record MDS =
  is_any_replay :: bool
  is_resolve :: bool
  stray :: nat
  subtree_map_size :: nat
  next_ev :: nat
  gather_answers :: "bool list"
  cache_trims :: nat
  replayed :: "LogEvent list"
  suicided :: bool

text \<open>
  The state of an \<^verbatim>\<open>MDLog\<close>, with what it reaches through its pointers.  \<open>clock\<close> holds the
  readings that the coming calls of \<^verbatim>\<open>ceph_clock_now\<close> return (the last one is repeated
  when the list runs out, 0 when there is none).  \<open>completed\<close> lists the contexts completed
  so far, each with its status; \<open>gathers\<close> the finishers \<^verbatim>\<open>C_MaybeExpiredSegment\<close>
  waiting for their sub-operations.
\<close>

record mdlog =
  conf :: md_config
  mds :: MDS
  journaler :: Journaler
  logger :: PerfCounters
  clock :: "utime_t list"
  segments :: "(u64 \<times> LogSegment) list"
  expiring_segments :: "nat list"
  expired_segments :: "nat list"
  num_events :: int
  expiring_events :: int
  expired_events :: int
  unflushed :: int
  capped :: bool
  cur_event :: "nat option"
  already_replayed :: bool
  next_seg :: nat
  completed :: "(ctx \<times> int) list"
  gathers :: "(nat \<times> int) list"
  waitfor_replay :: "ctx list"

subsection \<open>The containers of the standard library\<close>

text \<open>
  \<^verbatim>\<open>std::map<uint64_t,LogSegment*>\<close> is a list of pairs in ascending order of the keys:
  \<open>map_assign\<close> is \<^verbatim>\<open>m[k] = v\<close>, \<open>map_erase\<close> is \<^verbatim>\<open>m.erase(k)\<close>, the head of the list is
  \<^verbatim>\<open>m.begin()\<close> and its last element \<^verbatim>\<open>m.rbegin()\<close>.
\<close>

fun map_assign :: "u64 \<Rightarrow> 'v \<Rightarrow> (u64 \<times> 'v) list \<Rightarrow> (u64 \<times> 'v) list" where
  "map_assign k v [] = [(k, v)]"
| "map_assign k v ((k', v') # m) =
     (if k < k' then (k, v) # (k', v') # m
      else if k = k' then (k, v) # m
      else (k', v') # map_assign k v m)"

definition map_erase :: "u64 \<Rightarrow> (u64 \<times> 'v) list \<Rightarrow> (u64 \<times> 'v) list" where
  "map_erase k m = filter (\<lambda>kv. fst kv \<noteq> k) m"

text \<open>
  \<^verbatim>\<open>std::set<LogSegment*>\<close> is a list of addresses without repetition: \<open>set_insert\<close>,
  \<open>set_erase\<close>, \<open>set_count\<close> and \<open>length\<close> for \<^verbatim>\<open>size()\<close>.
\<close>

definition set_insert :: "nat \<Rightarrow> nat list \<Rightarrow> nat list" where
  "set_insert x xs = List.insert x xs"

definition set_erase :: "nat \<Rightarrow> nat list \<Rightarrow> nat list" where
  "set_erase x xs = removeAll x xs"

definition set_count :: "nat \<Rightarrow> nat list \<Rightarrow> bool" where
  "set_count x xs = (x \<in> set xs)"

subsection \<open>Collaborators\<close>

definition ceph_clock_now :: "mdlog \<Rightarrow> utime_t \<times> mdlog" where
  "ceph_clock_now s =
     (case clock s of
        [] \<Rightarrow> (0, s)
      | [t] \<Rightarrow> (t, s)
      | t # ts \<Rightarrow> (t, s\<lparr>clock := ts\<rparr>))"

definition complete :: "ctx \<Rightarrow> int \<Rightarrow> mdlog \<Rightarrow> mdlog" where
  "complete c r s = s\<lparr>completed := completed s @ [(c, r)]\<rparr>"

text \<open>
  Modelled from the spec: \<^verbatim>\<open>LogEvent::encode_with_header\<close> (section 6, the event wire
  format: a type tag of four bytes, then the payload) and \<^verbatim>\<open>Journaler::append_entry\<close>, which
  frames the entry with its length (four bytes) and moves \<open>write_pos\<close> past it.
\<close>

definition encode_with_header :: "LogEvent \<Rightarrow> bufferlist" where
  "encode_with_header le = \<lparr>bl_length = 4 + ev_size le, bl_event = Some le\<rparr>"

definition append_entry :: "bufferlist \<Rightarrow> Journaler \<Rightarrow> Journaler" where
  "append_entry bl j =
     j\<lparr>appended := appended j @ [(write_pos j, bl)],
       write_pos := write_pos j + of_nat (4 + bl_length bl)\<rparr>"

definition wait_for_flush :: "ctx \<Rightarrow> Journaler \<Rightarrow> Journaler" where
  "wait_for_flush c j = j\<lparr>flush_waiters := flush_waiters j @ [c]\<rparr>"

definition journaler_flush :: "Journaler \<Rightarrow> Journaler" where
  "journaler_flush j = j\<lparr>flushes := Suc (flushes j)\<rparr>"

definition journaler_write_head :: "Journaler \<Rightarrow> Journaler" where
  "journaler_write_head j = j\<lparr>head_writes := Suc (head_writes j)\<rparr>"

text \<open>
  Modelled from the spec: the constructor \<^verbatim>\<open>LogSegment(off)\<close> of \<^verbatim>\<open>LogSegment.h\<close> (section 3:
  a segment starts at its offset, holds no event, and its end grows while it is current).
\<close>

definition new_LogSegment :: "nat \<Rightarrow> u64 \<Rightarrow> LogSegment" where
  "new_LogSegment a off = \<lparr>seg_id = a, offset = off, seg_end = off, seg_num_events = 0\<rparr>"

subsection \<open>Entries\<close>

definition get_write_pos :: "mdlog \<Rightarrow> u64" where
  "get_write_pos s = write_pos (journaler s)"

definition start_entry :: "LogEvent \<Rightarrow> mdlog \<Rightarrow> error + (LogEvent \<times> mdlog)" where
  "start_entry e s =
     (if cur_event s \<noteq> None then Inl (AssertFailed ''cur_event == NULL'')
      else Inr (e\<lparr>start_off := get_write_pos s\<rparr>, s\<lparr>cur_event := Some (ev_id e)\<rparr>))"

text \<open>
  Modelled from the spec: \<^verbatim>\<open>MDCache::create_subtree_map\<close> (section 6), which allocates a
  subtree map event and starts it as the log's current entry (its callers in
  \<^verbatim>\<open>MDLog.cc\<close> submit the result without calling \<^verbatim>\<open>start_entry\<close> themselves).
\<close>

definition create_subtree_map :: "mdlog \<Rightarrow> error + (LogEvent \<times> mdlog)" where
  "create_subtree_map s =
     start_entry
       \<lparr>ev_id = next_ev (mds s), ev_type = EVENT_SUBTREEMAP,
        ev_size = subtree_map_size (mds s), start_off = 0, stamp = 0, ev_segment = None\<rparr>
       (s\<lparr>mds := (mds s)\<lparr>next_ev := Suc (next_ev (mds s))\<rparr>\<rparr>)"

text \<open>The helpers of \<^verbatim>\<open>MDLog.h\<close> on the segment index.\<close>

definition get_last_segment_offset :: "mdlog \<Rightarrow> error + u64" where
  "get_last_segment_offset s =
     (if segments s = [] then Inl (AssertFailed ''!segments.empty()'')
      else Inr (fst (last (segments s))))"

definition peek_current_segment :: "mdlog \<Rightarrow> LogSegment option" where
  "peek_current_segment s =
     (if segments s = [] then None else Some (snd (last (segments s))))"

definition get_current_segment :: "mdlog \<Rightarrow> error + LogSegment" where
  "get_current_segment s =
     (if segments s = [] then Inl (AssertFailed ''!segments.empty()'')
      else Inr (snd (last (segments s))))"

text \<open>The index as the source sees it: each key with the address it maps to.\<close>

definition seg_keys :: "mdlog \<Rightarrow> (u64 \<times> nat) list" where
  "seg_keys s = map (\<lambda>kv. (fst kv, seg_id (snd kv))) (segments s)"

text \<open>
  Lines 932 to 966 of \<^verbatim>\<open>submit_entry\<close>: the event joins the last segment of the index, is
  stamped, encoded and appended, and the completion waits for the flush.
\<close>

definition submit_entry_append :: "LogEvent \<Rightarrow> ctx option \<Rightarrow> mdlog \<Rightarrow> error + mdlog" where
  "submit_entry_append le c s =
     (if segments s = [] then Inl (AssertFailed ''!segments.empty()'')
      else
        let (k, ls) = last (segments s);
            ls1 = ls\<lparr>seg_num_events := seg_num_events ls + 1\<rparr>;
            (now, s1) = ceph_clock_now s;
            le1 = le\<lparr>ev_segment := Some (seg_id ls), stamp := now\<rparr>;
            s2 = s1\<lparr>num_events := num_events s1 + 1\<rparr>
        in
          if capped s2 then Inl (AssertFailed ''!capped'')
          else
            let j1 = append_entry (encode_with_header le1) (journaler s2);
                ls2 = ls1\<lparr>seg_end := write_pos j1\<rparr>;
                lg = (logger s2)\<lparr>l_mdl_evadd := l_mdl_evadd (logger s2) + 1,
                                 l_mdl_ev := num_events s2,
                                 l_mdl_wrpos := uint (write_pos j1)\<rparr>;
                j2 = (case c of None \<Rightarrow> j1 | Some x \<Rightarrow> wait_for_flush x j1)
            in Inr (s2\<lparr>segments := butlast (segments s2) @ [(k, ls2)],
                        journaler := j2,
                        logger := lg,
                        unflushed := unflushed s2 + 1\<rparr>))"

definition wait_for_safe :: "ctx \<Rightarrow> mdlog \<Rightarrow> mdlog" where
  "wait_for_safe c s =
     (if mds_log (conf s) then s\<lparr>journaler := wait_for_flush c (journaler s)\<rparr>
      else complete c 0 s)"

definition flush :: "mdlog \<Rightarrow> mdlog" where
  "flush s =
     (if unflushed s \<noteq> 0 then s\<lparr>journaler := journaler_flush (journaler s), unflushed := 0\<rparr>
      else s\<lparr>unflushed := 0\<rparr>)"

definition cap :: "mdlog \<Rightarrow> mdlog" where
  "cap s = s\<lparr>capped := True\<rparr>"

definition prepare_new_segment :: "mdlog \<Rightarrow> mdlog" where
  "prepare_new_segment s =
     (let segs = map_assign (write_pos (journaler s))
                   (new_LogSegment (next_seg s) (write_pos (journaler s))) (segments s)
      in s\<lparr>segments := segs,
           next_seg := Suc (next_seg s),
           logger := (logger s)\<lparr>l_mdl_segadd := l_mdl_segadd (logger s) + 1,
                                 l_mdl_seg := int (length segs)\<rparr>,
           mds := (mds s)\<lparr>stray := Suc (stray (mds s))\<rparr>\<rparr>)"

definition rotation_suppressed :: "LogEvent \<Rightarrow> mdlog \<Rightarrow> bool" where
  "rotation_suppressed le s =
     (ev_type le = EVENT_SUBTREEMAP \<or> (ev_type le = EVENT_IMPORTFINISH \<and> is_resolve (mds s)))"

lemma create_subtree_map_type:
  "create_subtree_map s = Inr (le, s') \<Longrightarrow> ev_type le = EVENT_SUBTREEMAP"
  by (auto simp: create_subtree_map_def start_entry_def split: if_splits)

function submit_entry :: "LogEvent \<Rightarrow> ctx option \<Rightarrow> mdlog \<Rightarrow> error + mdlog"
  and start_new_segment :: "ctx option \<Rightarrow> mdlog \<Rightarrow> error + mdlog"
  and journal_segment_subtree_map :: "mdlog \<Rightarrow> error + mdlog"
where
  "submit_entry le c s0 =
     (if is_any_replay (mds s0) then Inl (AssertFailed ''!mds->is_any_replay()'')
      else if cur_event s0 \<noteq> Some (ev_id le) then Inl (AssertFailed ''le == cur_event'')
      else
        let s = s0\<lparr>cur_event := None\<rparr> in
        if \<not> mds_log (conf s) then
          Inr (case c of None \<Rightarrow> s | Some x \<Rightarrow> complete x 0 s)
        else
          (case submit_entry_append le c s of
             Inl e \<Rightarrow> Inl e
           | Inr s1 \<Rightarrow>
               (case get_last_segment_offset s1 of
                  Inl e \<Rightarrow> Inl e
                | Inr last_seg \<Rightarrow>
                    let period = layout_period (journaler s1) in
                    if ev_type le = EVENT_SUBTREEMAP \<or>
                       (ev_type le = EVENT_IMPORTFINISH \<and> is_resolve (mds s1))
                    then Inr s1
                    else if period = 0 then Inl DivideByZero
                    else if write_pos (journaler s1) div period \<noteq> last_seg div period
                    then start_new_segment None s1
                    else if mds_debug_subtrees (conf s1) \<and> ev_type le \<noteq> EVENT_SUBTREEMAP_TEST
                    then
                      (case create_subtree_map s1 of
                         Inl e \<Rightarrow> Inl e
                       | Inr (sle, s2) \<Rightarrow>
                           submit_entry (sle\<lparr>ev_type := EVENT_SUBTREEMAP_TEST\<rparr>) None s2)
                    else Inr s1)))"
| "start_new_segment onsync s =
     (case journal_segment_subtree_map (prepare_new_segment s) of
        Inl e \<Rightarrow> Inl e
      | Inr s1 \<Rightarrow>
          (case onsync of
             None \<Rightarrow> Inr s1
           | Some c \<Rightarrow> Inr (flush (wait_for_safe c s1))))"
| "journal_segment_subtree_map s =
     (case create_subtree_map s of
        Inl e \<Rightarrow> Inl e
      | Inr (le, s1) \<Rightarrow> submit_entry le None s1)"
  by pat_completeness auto
termination
  by (relation "measure (\<lambda>x. case x of
         Inl (le, c, s) \<Rightarrow>
           (if ev_type le = EVENT_SUBTREEMAP then 0
            else if ev_type le = EVENT_SUBTREEMAP_TEST then 3 else 4)
       | Inr (Inl (c, s)) \<Rightarrow> 2
       | Inr (Inr s) \<Rightarrow> 1)")
     (auto dest: create_subtree_map_type)

declare submit_entry.simps [simp del]
declare start_new_segment.simps [simp del]
declare journal_segment_subtree_map.simps [simp del]

subsection \<open>Expiry and trimming\<close>

text \<open>
  Modelled from the spec: the two message priorities between which \<^verbatim>\<open>trim\<close> interpolates
  (section 4.2, from LOW to HIGH).  Their values are those of \<^verbatim>\<open>msgr.h\<close>, which is not among
  the sources; no claim depends on them.
\<close>

definition CEPH_MSG_PRIO_LOW :: int where
  "CEPH_MSG_PRIO_LOW = 64"

definition CEPH_MSG_PRIO_HIGH :: int where
  "CEPH_MSG_PRIO_HIGH = 196"

text \<open>Two seconds, in the unit of the clock (nanoseconds).\<close>

definition two_seconds :: utime_t where
  "two_seconds = 2000000000"

text \<open>
  Modelled from the spec: \<^verbatim>\<open>LogSegment::try_to_expire\<close> (section 4.2), which registers in the
  gather the operations that the segment still waits for.  The model reads from the
  metadata source whether it registered any.
\<close>

definition try_to_expire :: "mdlog \<Rightarrow> bool \<times> mdlog" where
  "try_to_expire s =
     (case gather_answers (mds s) of
        [] \<Rightarrow> (False, s)
      | b # bs \<Rightarrow> (b, s\<lparr>mds := (mds s)\<lparr>gather_answers := bs\<rparr>\<rparr>))"

text \<open>\<^verbatim>\<open>_expired\<close>: the comparison \<^verbatim>\<open>ls == peek_current_segment()\<close> is one of addresses.\<close>

definition expired :: "LogSegment \<Rightarrow> mdlog \<Rightarrow> mdlog" where
  "expired ls s =
     (let s1 =
        (if \<not> capped s \<and> map_option seg_id (peek_current_segment s) = Some (seg_id ls) then s
         else s\<lparr>expired_segments := set_insert (seg_id ls) (expired_segments s),
                expired_events := expired_events s + seg_num_events ls,
                logger := (logger s)\<lparr>l_mdl_evex := l_mdl_evex (logger s) + seg_num_events ls,
                                      l_mdl_segex := l_mdl_segex (logger s) + 1\<rparr>\<rparr>)
      in s1\<lparr>logger := (logger s1)\<lparr>l_mdl_ev := num_events s1,
                                   l_mdl_evexd := expired_events s1,
                                   l_mdl_seg := int (length (segments s1)),
                                   l_mdl_segexd := int (length (expired_segments s1))\<rparr>\<rparr>)"

definition try_expire :: "LogSegment \<Rightarrow> int \<Rightarrow> mdlog \<Rightarrow> error + mdlog" where
  "try_expire ls op_prio s =
     (let (has_subs, s1) = try_to_expire s in
      if has_subs \<and> set_count (seg_id ls) (expiring_segments s1)
      then Inl (AssertFailed ''expiring_segments.count(ls) == 0'')
      else
        let s2 =
          (if has_subs
           then s1\<lparr>expiring_segments := set_insert (seg_id ls) (expiring_segments s1),
                   expiring_events := expiring_events s1 + seg_num_events ls,
                   gathers := gathers s1 @ [(seg_id ls, op_prio)]\<rparr>
           else expired ls s1)
        in Inr (s2\<lparr>logger := (logger s2)\<lparr>l_mdl_segexg := int (length (expiring_segments s2)),
                                           l_mdl_evexg := expiring_events s2\<rparr>\<rparr>))"

definition maybe_expired :: "LogSegment \<Rightarrow> int \<Rightarrow> mdlog \<Rightarrow> error + mdlog" where
  "maybe_expired ls op_prio s =
     (if \<not> set_count (seg_id ls) (expiring_segments s)
      then Inl (AssertFailed ''expiring_segments.count(ls)'')
      else try_expire ls op_prio
             (s\<lparr>expiring_segments := set_erase (seg_id ls) (expiring_segments s),
                expiring_events := expiring_events s - seg_num_events ls\<rparr>))"

text \<open>
  \<^verbatim>\<open>_trim_expired_segments\<close>: the loop, with its flag \<^verbatim>\<open>trimmed\<close>, then the write of the
  head.  Each turn erases the address of the oldest segment from the expired set, where it
  was: the set shrinks, and the loop ends.
\<close>

lemma set_erase_shrinks: "set_count x xs \<Longrightarrow> length (set_erase x xs) < length xs"
  by (simp add: set_count_def set_erase_def length_removeAll_less)

function trim_expired_loop :: "bool \<Rightarrow> mdlog \<Rightarrow> bool \<times> mdlog" where
  "trim_expired_loop trimmed s =
     (case segments s of
        [] \<Rightarrow> (trimmed, s)
      | (k, ls) # rest \<Rightarrow>
          if \<not> set_count (seg_id ls) (expired_segments s) then (trimmed, s)
          else
            trim_expired_loop True
              (s\<lparr>expired_events := expired_events s - seg_num_events ls,
                 expired_segments := set_erase (seg_id ls) (expired_segments s),
                 num_events := num_events s - seg_num_events ls,
                 journaler :=
                   (if expire_pos (journaler s) < offset ls
                    then (journaler s)\<lparr>expire_pos := offset ls\<rparr>
                    else journaler s),
                 logger := (logger s)\<lparr>l_mdl_expos := uint (offset ls),
                                       l_mdl_segtrm := l_mdl_segtrm (logger s) + 1,
                                       l_mdl_evtrm := l_mdl_evtrm (logger s) + seg_num_events ls\<rparr>,
                 segments := map_erase (offset ls) (segments s)\<rparr>))"
  by pat_completeness auto
termination
  by (relation "measure (\<lambda>(trimmed, s). length (expired_segments s))")
     (auto simp: set_erase_shrinks)

declare trim_expired_loop.simps [simp del]

definition trim_expired_segments :: "mdlog \<Rightarrow> mdlog" where
  "trim_expired_segments s =
     (let (trimmed, s1) = trim_expired_loop False s in
      if trimmed then s1\<lparr>journaler := journaler_write_head (journaler s1)\<rparr> else s1)"

text \<open>
  The loop of \<^verbatim>\<open>trim\<close>.  The iterator \<^verbatim>\<open>p\<close> is the list of the segments not yet visited (the
  loop does not change the index).  The sizes are \<^verbatim>\<open>size_t\<close>: their difference wraps around
  at \<open>2 ^ 64\<close>, and \<^verbatim>\<open>max_segments\<close> is cast to \<^verbatim>\<open>unsigned\<close> (32 bits) before it is compared.
  The division of the priority is one of non-negative integers, where C++ and HOL agree.
\<close>

definition size_t :: "nat \<Rightarrow> u64" where
  "size_t n = of_nat n"

definition over_max_events :: "int \<Rightarrow> mdlog \<Rightarrow> bool" where
  "over_max_events max_events s =
     (max_events \<ge> 0 \<and> num_events s - expiring_events s - expired_events s > max_events)"

definition over_max_segments :: "int \<Rightarrow> mdlog \<Rightarrow> bool" where
  "over_max_segments max_segments s =
     (max_segments \<ge> 0 \<and>
      size_t (length (segments s)) - size_t (length (expiring_segments s))
        - size_t (length (expired_segments s))
      > ucast (word_of_int max_segments :: 32 word))"

fun trim_loop :: "int \<Rightarrow> int \<Rightarrow> utime_t \<Rightarrow> (u64 \<times> LogSegment) list \<Rightarrow> mdlog \<Rightarrow> error + mdlog"
where
  "trim_loop max_events max_segments stop [] s = Inr s"
| "trim_loop max_events max_segments stop (p # rest) s =
     (if \<not> (over_max_events max_events s \<or> over_max_segments max_segments s) then Inr s
      else
        let (now, s1) = ceph_clock_now s in
        if stop < now then Inr s1
        else
          let num_expiring_segments = int (length (expiring_segments s1)) in
          if num_expiring_segments \<ge> mds_log_max_expiring (conf s1) then Inr s1
          else
            let op_prio = CEPH_MSG_PRIO_LOW +
                  (CEPH_MSG_PRIO_HIGH - CEPH_MSG_PRIO_LOW) * num_expiring_segments
                    div mds_log_max_expiring (conf s1);
                ls = snd p
            in
              if seg_end ls > safe_pos (journaler s1) then Inr s1
              else if set_count (seg_id ls) (expiring_segments s1)
              then trim_loop max_events max_segments stop rest s1
              else if set_count (seg_id ls) (expired_segments s1)
              then trim_loop max_events max_segments stop rest s1
              else
                (case try_expire ls op_prio s1 of
                   Inl e \<Rightarrow> Inl e
                 | Inr s2 \<Rightarrow> trim_loop max_events max_segments stop rest s2))"

definition trim :: "int \<Rightarrow> mdlog \<Rightarrow> error + mdlog" where
  "trim m s =
     (let max_segments = mds_log_max_segments (conf s);
          max_events = (if m \<ge> 0 then m else mds_log_max_events (conf s))
      in
        if segments s = [] then Inr s
        else
          let (now, s1) = ceph_clock_now s;
              stop = now + two_seconds
          in
            (case trim_loop max_events max_segments stop (segments s1) s1 of
               Inl e \<Rightarrow> Inl e
             | Inr s2 \<Rightarrow> Inr (trim_expired_segments s2)))"

subsection \<open>Well-formed indices\<close>

text \<open>
  What the types of the source give for free: the keys of a \<^verbatim>\<open>std::map\<close> ascend, every
  segment is stored under its own offset (\<^verbatim>\<open>segments[pos] = new LogSegment(pos)\<close> is the only
  insertion), and different entries hold different objects.  \<open>is_expired\<close> is
  \<^verbatim>\<open>expired_segments.count(ls)\<close> for an entry of the index.
\<close>

definition is_expired :: "mdlog \<Rightarrow> u64 \<times> LogSegment \<Rightarrow> bool" where
  "is_expired s kv = set_count (seg_id (snd kv)) (expired_segments s)"

definition index_wf :: "(u64 \<times> LogSegment) list \<Rightarrow> bool" where
  "index_wf segs =
     (sorted_wrt (<) (map fst segs) \<and>
      (\<forall>kv \<in> set segs. offset (snd kv) = fst kv) \<and>
      distinct (map (\<lambda>kv. seg_id (snd kv)) segs))"

text \<open>
  The capped-log rule as a property of a state: the log is not capped, the current segment
  (the last of the index) is the object at address \<open>a\<close>, and \<open>a\<close> is not in the expired
  set.
\<close>

definition current_kept :: "nat \<Rightarrow> mdlog \<Rightarrow> bool" where
  "current_kept a s =
     (\<not> capped s \<and> map_option seg_id (peek_current_segment s) = Some a \<and>
      a \<notin> set (expired_segments s))"

text \<open>
  The expiring and the expired set of a well-formed log: two disjoint sets of addresses
  of segments of the index (the invariant of section 3 of the specification), and an index
  whose size fits a \<^verbatim>\<open>size_t\<close>.
\<close>

definition sets_wf :: "mdlog \<Rightarrow> bool" where
  "sets_wf s =
     (distinct (map (\<lambda>kv. seg_id (snd kv)) (segments s)) \<and>
      distinct (expiring_segments s) \<and> distinct (expired_segments s) \<and>
      set (expiring_segments s) \<inter> set (expired_segments s) = {} \<and>
      set (expiring_segments s) \<union> set (expired_segments s)
        \<subseteq> set (map (\<lambda>kv. seg_id (snd kv)) (segments s)) \<and>
      length (segments s) < 2 ^ 64)"

subsection \<open>The trim loop in the words of the specification\<close>

text \<open>
  The contract of \<^verbatim>\<open>trim\<close> (section 4.2), with the live counts as integers: the loop visits the
  segments of the index in order and stops when none is left, when the live counts
  (total less expiring less expired) are within the bounds (a negative bound is no bound),
  when the clock read at this turn is past the start by more than two seconds, when the
  expiring segments are \<^verbatim>\<open>max_expiring\<close> or more, or when the segment it is at ends beyond
  the safe position.  Otherwise it passes a segment that is expiring or expired, and tries
  to expire any other with the interpolated priority.  \<open>claimed_stop\<close> holds the four
  conditions of the claim, without the first.
\<close>

definition live_events :: "mdlog \<Rightarrow> int" where
  "live_events s = num_events s - expiring_events s - expired_events s"

definition live_segments :: "mdlog \<Rightarrow> int" where
  "live_segments s =
     int (length (segments s)) - int (length (expiring_segments s))
       - int (length (expired_segments s))"

definition within_bounds :: "int \<Rightarrow> int \<Rightarrow> mdlog \<Rightarrow> bool" where
  "within_bounds max_events max_segments s =
     ((max_events < 0 \<or> live_events s \<le> max_events) \<and>
      (max_segments < 0 \<or> live_segments s \<le> max_segments))"

definition interpolated_prio :: "mdlog \<Rightarrow> int" where
  "interpolated_prio s =
     CEPH_MSG_PRIO_LOW +
       (CEPH_MSG_PRIO_HIGH - CEPH_MSG_PRIO_LOW) * int (length (expiring_segments s))
         div mds_log_max_expiring (conf s)"

fun trim_loop_spec ::
  "int \<Rightarrow> int \<Rightarrow> utime_t \<Rightarrow> (u64 \<times> LogSegment) list \<Rightarrow> mdlog \<Rightarrow> error + mdlog"
where
  "trim_loop_spec max_events max_segments stop [] s = Inr s"
| "trim_loop_spec max_events max_segments stop (p # rest) s =
     (if within_bounds max_events max_segments s then Inr s
      else
        let (now, s1) = ceph_clock_now s in
        if now > stop then Inr s1
        else if int (length (expiring_segments s1)) \<ge> mds_log_max_expiring (conf s1)
        then Inr s1
        else if seg_end (snd p) > safe_pos (journaler s1) then Inr s1
        else if seg_id (snd p) \<in> set (expiring_segments s1) \<union> set (expired_segments s1)
        then trim_loop_spec max_events max_segments stop rest s1
        else
          (case try_expire (snd p) (interpolated_prio s1) s1 of
             Inl e \<Rightarrow> Inl e
           | Inr s2 \<Rightarrow> trim_loop_spec max_events max_segments stop rest s2))"

definition trim_spec :: "int \<Rightarrow> mdlog \<Rightarrow> error + mdlog" where
  "trim_spec m s =
     (if segments s = [] then Inr s
      else
        let (start, s1) = ceph_clock_now s in
        (case trim_loop_spec (if m \<ge> 0 then m else mds_log_max_events (conf s))
                (mds_log_max_segments (conf s)) (start + two_seconds) (segments s1) s1 of
           Inl e \<Rightarrow> Inl e
         | Inr s2 \<Rightarrow> Inr (trim_expired_segments s2)))"

definition claimed_stop ::
  "int \<Rightarrow> int \<Rightarrow> utime_t \<Rightarrow> (u64 \<times> LogSegment) list \<Rightarrow> mdlog \<Rightarrow> bool" where
  "claimed_stop max_events max_segments stop rest s =
     (within_bounds max_events max_segments s \<or>
      stop < fst (ceph_clock_now s) \<or>
      int (length (expiring_segments s)) \<ge> mds_log_max_expiring (conf s) \<or>
      (rest \<noteq> [] \<and> seg_end (snd (hd rest)) > safe_pos (journaler s)))"

subsection \<open>Replay\<close>

definition ENOENT :: int where
  "ENOENT = 2"

definition EAGAIN :: int where
  "EAGAIN = 11"

definition EINVAL :: int where
  "EINVAL = 22"

text \<open>
  Modelled from the spec: the read side of the \<^verbatim>\<open>Journaler\<close> (section 6:
  \<^verbatim>\<open>wait_for_readable\<close>, \<^verbatim>\<open>try_read_entry\<close>, \<^verbatim>\<open>reread_head\<close>).  The journal is readable when
  an entry has been prefetched.  What the object store does while the thread waits is an
  input: each wait consumes one answer, a prefetch that brings in some of the entries on
  disk or a failure that sets the error; when no answer is left the thread waits for ever.
  \<^verbatim>\<open>try_read_entry\<close> hands out the first prefetched entry and moves \<open>read_pos\<close> past it (its
  length and the four bytes of its frame), or sets the error when the entry cannot be read.
\<close>

datatype fetch =
    Fetched nat
  | Failed int

definition is_readable :: "Journaler \<Rightarrow> bool" where
  "is_readable j = (prefetched j \<noteq> [])"

definition apply_fetch :: "fetch \<Rightarrow> Journaler \<Rightarrow> Journaler" where
  "apply_fetch f j =
     (case f of
        Fetched n \<Rightarrow> j\<lparr>prefetched := prefetched j @ take n (on_disk j),
                       on_disk := drop n (on_disk j)\<rparr>
      | Failed e \<Rightarrow> j\<lparr>j_error := e\<rparr>)"

definition try_read_entry :: "Journaler \<Rightarrow> bufferlist option \<times> Journaler" where
  "try_read_entry j =
     (case prefetched j of
        [] \<Rightarrow> (None, j)
      | Entry bl # rest \<Rightarrow>
          (Some bl, j\<lparr>prefetched := rest, read_pos := read_pos j + of_nat (4 + bl_length bl)\<rparr>)
      | Unreadable e # rest \<Rightarrow> (None, j\<lparr>j_error := e\<rparr>))"

definition reread_head :: "Journaler \<Rightarrow> int \<times> Journaler" where
  "reread_head j =
     (reread_err j,
      (if reread_err j = 0 then j\<lparr>expire_pos := disk_expire_pos j\<rparr> else j)
        \<lparr>head_rereads := Suc (head_rereads j)\<rparr>)"

text \<open>
  The inner loop of \<^verbatim>\<open>_replay_thread\<close> (lines 1495 to 1500): wait while the journal is not
  readable, not at its end and without error.  \<open>None\<close>: the thread waits for ever.
\<close>

definition must_wait :: "Journaler \<Rightarrow> bool" where
  "must_wait j = (\<not> is_readable j \<and> read_pos j < write_pos j \<and> j_error j = 0)"

fun wait_readable :: "fetch list \<Rightarrow> Journaler \<Rightarrow> (fetch list \<times> Journaler) option" where
  "wait_readable [] j = (if must_wait j then None else Some ([], j))"
| "wait_readable (f # fs) j =
     (if must_wait j then wait_readable fs (apply_fetch f j) else Some (f # fs, j))"

text \<open>
  Modelled from the spec: \<^verbatim>\<open>remove_oldest_segment\<close> of \<^verbatim>\<open>MDLog.h\<close>, which is not among the
  sources (section 4.6: the segment is removed from the index; nothing is said of any
  counter).
\<close>

definition remove_oldest_segment :: "(u64 \<times> LogSegment) list \<Rightarrow> (u64 \<times> LogSegment) list" where
  "remove_oldest_segment segs = tl segs"

function standby_trim_loop :: "u64 \<Rightarrow> (u64 \<times> LogSegment) list \<Rightarrow> (u64 \<times> LogSegment) list" where
  "standby_trim_loop e segs =
     (if segs = [] then segs
      else if seg_end (snd (hd segs)) > e then segs
      else standby_trim_loop e (remove_oldest_segment segs))"
  by pat_completeness auto
termination
  by (relation "measure (\<lambda>(e, segs). length segs)")
     (auto simp: remove_oldest_segment_def)

declare standby_trim_loop.simps [simp del]

definition standby_trim_segments :: "mdlog \<Rightarrow> mdlog" where
  "standby_trim_segments s =
     (let segs = standby_trim_loop (expire_pos (journaler s)) (segments s);
          removed_segment = (length segs < length (segments s))
      in s\<lparr>segments := segs,
           mds := (if removed_segment
                   then (mds s)\<lparr>cache_trims := Suc (cache_trims (mds s))\<rparr>
                   else mds s)\<rparr>)"

text \<open>
  Lines 1572 to 1597: one decoded event.  A subtree map or a journal reset opens a segment
  at the position of the event; with no segment yet the event is skipped; otherwise it
  joins the current segment and is replayed.
\<close>

definition replay_event :: "u64 \<Rightarrow> LogEvent \<Rightarrow> mdlog \<Rightarrow> mdlog" where
  "replay_event pos le0 s =
     (let le = le0\<lparr>start_off := pos\<rparr>;
          s1 = (if ev_type le = EVENT_SUBTREEMAP \<or> ev_type le = EVENT_RESETJOURNAL
                then
                  let segs = map_assign pos (new_LogSegment (next_seg s) pos) (segments s)
                  in s\<lparr>segments := segs, next_seg := Suc (next_seg s),
                       logger := (logger s)\<lparr>l_mdl_seg := int (length segs)\<rparr>\<rparr>
                else s);
          s2 = (if segments s1 = [] then s1
                else
                  let (k, ls) = last (segments s1);
                      ls1 = ls\<lparr>seg_num_events := seg_num_events ls + 1,
                               seg_end := read_pos (journaler s1)\<rparr>
                  in s1\<lparr>segments := butlast (segments s1) @ [(k, ls1)],
                        num_events := num_events s1 + 1,
                        mds := (mds s1)\<lparr>replayed := replayed (mds s1)
                                  @ [le\<lparr>ev_segment := Some (seg_id ls)\<rparr>]\<rparr>\<rparr>)
      in s2\<lparr>logger := (logger s2)\<lparr>l_mdl_rdpos := uint pos\<rparr>\<rparr>)"

text \<open>
  Lines 1501 to 1544: the journaler has an error.  The result is the status with which the
  replay ends.
\<close>

definition replay_error :: "mdlog \<Rightarrow> error + (int \<times> mdlog)" where
  "replay_error s =
     (let j = journaler s; r = j_error j in
      if r = - ENOENT then
        (if \<not> readonly j then Inl (AssertFailed ''journaler->is_readonly()'')
         else Inr (- EAGAIN, s))
      else if r = - EINVAL then
        (if read_pos j < expire_pos j then
           (if \<not> readonly j then Inl (AssertFailed ''journaler->is_readonly()'')
            else Inr (- EAGAIN, s))
         else
           let (err, j1) = reread_head j;
               s1 = s\<lparr>journaler := j1\<rparr>;
               s2 = (if err \<noteq> 0 then s1\<lparr>mds := (mds s1)\<lparr>suicided := True\<rparr>\<rparr> else s1);
               s3 = standby_trim_segments s2
           in
             if read_pos (journaler s3) < expire_pos (journaler s3) then Inr (- EAGAIN, s3)
             else Inr (r, s3))
      else Inr (r, s))"

lemma wait_readable_measure:
  "wait_readable script j = Some (script1, j1) \<Longrightarrow>
     length (prefetched j1) + length (on_disk j1) = length (prefetched j) + length (on_disk j) \<and>
     (j_error j \<noteq> 0 \<longrightarrow> j1 = j)"
proof (induction script arbitrary: j)
  case Nil
  then show ?case by (simp split: if_splits)
next
  case (Cons f fs)
  show ?case
  proof (cases "must_wait j")
    case False
    with Cons.prems show ?thesis by simp
  next
    case True
    with Cons.prems have "wait_readable fs (apply_fetch f j) = Some (script1, j1)" by simp
    from Cons.IH [OF this] True show ?thesis
      by (cases f) (auto simp: apply_fetch_def must_wait_def)
  qed
qed

text \<open>
  The loop of \<^verbatim>\<open>_replay_thread\<close>.  \<open>None\<close>: the thread waits for ever; \<open>Some\<close> of the status
  \<^verbatim>\<open>r\<close> and the state when the loop is left.  Every turn that does not leave the loop reads
  an entry or sets the error, so the loop ends.
\<close>

lemma replay_event_journaler: "journaler (replay_event pos le s) = journaler s"
  by (simp add: replay_event_def Let_def split_beta)

function replay_loop :: "fetch list \<Rightarrow> mdlog \<Rightarrow> (error + (int \<times> mdlog)) option" where
  "replay_loop script s =
     (case wait_readable script (journaler s) of
        None \<Rightarrow> None
      | Some (script1, j1) \<Rightarrow>
          if j_error j1 \<noteq> 0 then Some (replay_error (s\<lparr>journaler := j1\<rparr>))
          else if \<not> is_readable j1 \<and> read_pos j1 = write_pos j1
          then Some (Inr (0, s\<lparr>journaler := j1\<rparr>))
          else if \<not> is_readable j1 then Some (Inl (AssertFailed ''journaler->is_readable()''))
          else
            (case try_read_entry j1 of
               (None, j2) \<Rightarrow>
                 if j_error j2 \<noteq> 0 then replay_loop script1 (s\<lparr>journaler := j2\<rparr>)
                 else Some (Inl (AssertFailed ''r''))
             | (Some bl, j2) \<Rightarrow>
                 (case bl_event bl of
                    None \<Rightarrow>
                      if mds_log_skip_corrupt_events (conf s)
                      then replay_loop script1 (s\<lparr>journaler := j2\<rparr>)
                      else Some (Inl (AssertFailed ''corrupt log event''))
                  | Some le \<Rightarrow>
                      replay_loop script1
                        (replay_event (read_pos j1) le (s\<lparr>journaler := j2\<rparr>)))))"
  by pat_completeness auto

termination
  apply (relation "measure (\<lambda>(script, s).
         2 * (length (prefetched (journaler s)) + length (on_disk (journaler s)))
         + (if j_error (journaler s) = 0 then 1 else 0))")
     apply simp
    apply (auto dest!: wait_readable_measure
      simp: try_read_entry_def replay_event_journaler
      split: list.splits journal_entry.splits if_splits)
  done

declare replay_loop.simps [simp del]

definition finish_contexts :: "int \<Rightarrow> mdlog \<Rightarrow> mdlog" where
  "finish_contexts r s =
     s\<lparr>completed := completed s @ map (\<lambda>c. (c, r)) (waitfor_replay s),
       waitfor_replay := []\<rparr>"

definition replay_thread :: "fetch list \<Rightarrow> mdlog \<Rightarrow> (error + mdlog) option" where
  "replay_thread script s =
     (case replay_loop script s of
        None \<Rightarrow> None
      | Some (Inl e) \<Rightarrow> Some (Inl e)
      | Some (Inr (r, s1)) \<Rightarrow>
          if r = 0 then
            (if read_pos (journaler s1) \<noteq> write_pos (journaler s1)
             then Some (Inl (AssertFailed
                    ''journaler->get_read_pos() == journaler->get_write_pos()''))
             else Some (Inr (finish_contexts r
                    (s1\<lparr>logger := (logger s1)\<lparr>l_mdl_expos :=
                                     uint (expire_pos (journaler s1))\<rparr>\<rparr>))))
          else Some (Inr (finish_contexts r s1)))"

text \<open>
  Lines 1515 to 1536 as one step: the head is read again (the server kills itself when that
  fails) and \<^verbatim>\<open>standby_trim_segments\<close> is called.
\<close>

definition reread_and_trim :: "mdlog \<Rightarrow> mdlog" where
  "reread_and_trim s =
     standby_trim_segments
       (s\<lparr>journaler := snd (reread_head (journaler s)),
          mds := (if reread_err (journaler s) \<noteq> 0 then (mds s)\<lparr>suicided := True\<rparr>
                  else mds s)\<rparr>)"

subsection \<open>The invariant of the event counter\<close>

text \<open>
  \<open>events_inv\<close>: the counter \<^verbatim>\<open>num_events\<close> of the log is the sum of the counters of the segments
  of the index.  \<open>log_inv pos\<close> adds what keeps it true while the journal grows: the keys
  of the index ascend, every segment is stored under its offset, and every segment starts
  before the position \<open>pos\<close> (the write position of a writer, the read position of a
  replay), or at \<open>pos\<close> if it holds no event yet.
\<close>

definition events_inv :: "mdlog \<Rightarrow> bool" where
  "events_inv s = (num_events s = sum_list (map (\<lambda>kv. seg_num_events (snd kv)) (segments s)))"

definition keys_behind :: "u64 \<Rightarrow> (u64 \<times> LogSegment) list \<Rightarrow> bool" where
  "keys_behind pos segs =
     (\<forall>kv \<in> set segs. fst kv < pos \<or> (fst kv = pos \<and> seg_num_events (snd kv) = 0))"

definition log_inv :: "u64 \<Rightarrow> mdlog \<Rightarrow> bool" where
  "log_inv pos s =
     (sorted_wrt (<) (map fst (segments s)) \<and>
      (\<forall>kv \<in> set (segments s). offset (snd kv) = fst kv) \<and>
      keys_behind pos (segments s) \<and>
      events_inv s)"

text \<open>
  The journal that a replay reads does not reach \<open>2 ^ 64\<close> bytes: the read position and the
  entries still to be read, each with the four bytes of its frame, stay below.
\<close>

fun entries_size :: "journal_entry list \<Rightarrow> nat" where
  "entries_size [] = 0"
| "entries_size (Entry bl # es) = 4 + bl_length bl + entries_size es"
| "entries_size (Unreadable e # es) = entries_size es"

definition fits :: "Journaler \<Rightarrow> bool" where
  "fits j = (unat (read_pos j) + entries_size (prefetched j @ on_disk j) < 2 ^ 64)"

subsection \<open>Recovery and reformat\<close>

text \<open>
  Modelled from the spec: the \<^verbatim>\<open>JournalPointer\<close> (section 3: the two inodes \<^verbatim>\<open>front\<close> and
  \<^verbatim>\<open>back\<close>, 0 for none) and the object store in which the pointer and the journals live
  (section 6), whose code is not among the sources.  \<open>pointer\<close> is the pointer object of the
  node, if there is one; \<open>load_err\<close> a failure of reading it; \<open>save_result\<close> the status of
  writing it; \<open>journals\<close> the journals in the store, by inode, each with the statuses of
  recovering and erasing it, what a recovery reads of it, and what the store answers while
  it is read; \<open>io_log\<close> the operations on the store, in the order they were made.
\<close>

record JournalPointer =
  jp_front :: inodeno_t
  jp_back :: inodeno_t

datatype io_op =
    SavePointer JournalPointer
  | Recover inodeno_t
  | Erase inodeno_t
  | WriteHead inodeno_t
  | Flush inodeno_t

record stored_journal =
  recover_result :: int
  erase_result :: int
  contents :: Journaler
  fetches :: "fetch list"

record rados =
  pointer :: "JournalPointer option"
  load_err :: int
  save_result :: int
  journals :: "(inodeno_t \<times> stored_journal) list"
  io_log :: "io_op list"

text \<open>
  What \<^verbatim>\<open>_recovery_thread\<close> leaves: the status given to the completion, the journaler it
  installed as \<^verbatim>\<open>this->journaler\<close> (with its inode), its pointer, and the store.
\<close>

record recovered =
  status :: int
  active :: "(inodeno_t \<times> Journaler) option"
  jp_final :: JournalPointer
  store :: rados

text \<open>
  Modelled from the spec: the inodes of the journals of a node (section 4.4, the primary and
  the secondary inode).  Their values are those of \<^verbatim>\<open>mdstypes.h\<close>, which is not among the
  sources; no theorem unfolds them.
\<close>

definition MDS_INO_LOG_OFFSET :: inodeno_t where
  "MDS_INO_LOG_OFFSET = 512"

definition MDS_INO_LOG_BACKUP_OFFSET :: inodeno_t where
  "MDS_INO_LOG_BACKUP_OFFSET = 768"

text \<open>The inode a reformat writes to: the secondary one if the front is the primary, else the primary.\<close>

definition other_ino :: "u64 \<Rightarrow> inodeno_t \<Rightarrow> inodeno_t" where
  "other_ino nodeid f =
     (if f = MDS_INO_LOG_OFFSET + nodeid then MDS_INO_LOG_BACKUP_OFFSET + nodeid
      else MDS_INO_LOG_OFFSET + nodeid)"

definition is_null :: "JournalPointer \<Rightarrow> bool" where
  "is_null jp = (jp_front jp = 0 \<and> jp_back jp = 0)"

definition jp_load :: "rados \<Rightarrow> int \<times> JournalPointer" where
  "jp_load st =
     (if load_err st \<noteq> 0 then (load_err st, \<lparr>jp_front = 0, jp_back = 0\<rparr>)
      else
        (case pointer st of
           None \<Rightarrow> (- ENOENT, \<lparr>jp_front = 0, jp_back = 0\<rparr>)
         | Some p \<Rightarrow> (0, p)))"

definition jp_save :: "JournalPointer \<Rightarrow> rados \<Rightarrow> int \<times> rados" where
  "jp_save jp st =
     (save_result st,
      (if save_result st \<ge> 0 then st\<lparr>pointer := Some jp\<rparr> else st)
        \<lparr>io_log := io_log st @ [SavePointer jp]\<rparr>)"

text \<open>
  A journal that is not in the store recovers as an empty one (``\<^verbatim>\<open>Journaler.recover\<close>
  succeeds if no journal objects are present'', line 1292).
\<close>

definition empty_journaler :: Journaler where
  "empty_journaler =
     \<lparr>write_pos = 0, read_pos = 0, safe_pos = 0, expire_pos = 0, layout_period = 0,
      stream_format = 0, j_error = 0, readonly = True, appended = [], prefetched = [],
      on_disk = [], flush_waiters = [], head_writes = 0, flushes = 0, head_rereads = 0,
      reread_err = 0, disk_expire_pos = 0\<rparr>"

definition journaler_recover ::
  "inodeno_t \<Rightarrow> rados \<Rightarrow> (int \<times> Journaler \<times> fetch list) \<times> rados" where
  "journaler_recover i st =
     ((case map_of (journals st) i of
         None \<Rightarrow> (0, empty_journaler, [])
       | Some sj \<Rightarrow> (recover_result sj, contents sj, fetches sj)),
      st\<lparr>io_log := io_log st @ [Recover i]\<rparr>)"

definition journaler_erase :: "inodeno_t \<Rightarrow> rados \<Rightarrow> int \<times> rados" where
  "journaler_erase i st =
     (case map_of (journals st) i of
        None \<Rightarrow> (- ENOENT, st\<lparr>io_log := io_log st @ [Erase i]\<rparr>)
      | Some sj \<Rightarrow>
          (erase_result sj,
           (if erase_result sj = 0
            then st\<lparr>journals := filter (\<lambda>kv. fst kv \<noteq> i) (journals st)\<rparr>
            else st)\<lparr>io_log := io_log st @ [Erase i]\<rparr>))"

definition store_journal :: "inodeno_t \<Rightarrow> Journaler \<Rightarrow> rados \<Rightarrow> rados" where
  "store_journal i j st =
     st\<lparr>journals :=
          (i, \<lparr>recover_result = 0, erase_result = 0,
               contents = j\<lparr>on_disk := map (\<lambda>e. Entry (snd e)) (appended j), appended := [],
                            readonly := True\<rparr>,
               fetches = []\<rparr>)
          # filter (\<lambda>kv. fst kv \<noteq> i) (journals st)\<rparr>"

text \<open>\<^verbatim>\<open>Journaler::create\<close>: an empty journal with the layout and the format it is given.\<close>

definition journaler_create :: "u64 \<Rightarrow> int \<Rightarrow> Journaler" where
  "journaler_create period format =
     empty_journaler\<lparr>write_pos := period, read_pos := period, safe_pos := period,
                     expire_pos := period, layout_period := period,
                     stream_format := format, readonly := False\<rparr>"

text \<open>
  The transcription loop of \<^verbatim>\<open>_reformat_journal\<close> (lines 1397 to 1436): every entry read
  from the old journal is appended to the new one.  The result is the status \<^verbatim>\<open>r\<close> and
  the two journalers; \<open>None\<close>: the thread waits for ever.
\<close>

function transcribe ::
  "fetch list \<Rightarrow> Journaler \<Rightarrow> Journaler \<Rightarrow> (error + (int \<times> Journaler \<times> Journaler)) option"
where
  "transcribe script old new =
     (case wait_readable script old of
        None \<Rightarrow> None
      | Some (script1, j1) \<Rightarrow>
          if j_error j1 \<noteq> 0 then Some (Inr (j_error j1, j1, new))
          else if \<not> is_readable j1 \<and> read_pos j1 = write_pos j1
          then Some (Inr (0, j1, new))
          else if \<not> is_readable j1
          then Some (Inl (AssertFailed ''old_journal->is_readable()''))
          else
            (case try_read_entry j1 of
               (None, j2) \<Rightarrow>
                 if j_error j2 \<noteq> 0 then transcribe script1 j2 new
                 else Some (Inl (AssertFailed ''r''))
             | (Some bl, j2) \<Rightarrow> transcribe script1 j2 (append_entry bl new)))"
  by pat_completeness auto
termination
  apply (relation "measure (\<lambda>(script, old, new).
         2 * (length (prefetched old) + length (on_disk old))
         + (if j_error old = 0 then 1 else 0))")
    apply simp
   apply (auto dest!: wait_readable_measure
      simp: try_read_entry_def
      split: list.splits journal_entry.splits if_splits)
  done

declare transcribe.simps [simp del]

definition reformat_journal ::
  "u64 \<Rightarrow> int \<Rightarrow> JournalPointer \<Rightarrow> Journaler \<Rightarrow> fetch list \<Rightarrow> rados
     \<Rightarrow> (error + recovered) option" where
  "reformat_journal nodeid mds_journal_format jp_in old_journal script st =
     (if is_null jp_in then Some (Inl (AssertFailed ''!jp_in.is_null()''))
      else
        let primary_ino = MDS_INO_LOG_OFFSET + nodeid;
            secondary_ino = MDS_INO_LOG_BACKUP_OFFSET + nodeid;
            jp1 = jp_in\<lparr>jp_back := (if jp_front jp_in = primary_ino then secondary_ino
                                   else primary_ino)\<rparr>;
            (write_result, st1) = jp_save jp1 st
        in
          if write_result \<noteq> 0 then Some (Inl (AssertFailed ''write_result == 0''))
          else
            let new_journal = journaler_create (layout_period old_journal) mds_journal_format;
                st2 = (store_journal (jp_back jp1) new_journal st1)
                        \<lparr>io_log := io_log st1 @ [WriteHead (jp_back jp1)]\<rparr>
            in
              (case transcribe script old_journal new_journal of
                 None \<Rightarrow> None
               | Some (Inl e) \<Rightarrow> Some (Inl e)
               | Some (Inr (r, old1, new1)) \<Rightarrow>
                   let st3 = (store_journal (jp_back jp1) new1 st2)
                               \<lparr>io_log := io_log st2 @ [Flush (jp_back jp1)]\<rparr>
                   in
                     if r \<noteq> 0 then Some (Inl (AssertFailed ''r == 0''))
                     else
                       let jp2 = \<lparr>jp_front = jp_back jp1, jp_back = jp_front jp1\<rparr>;
                           (write_result2, st4) = jp_save jp2 st3
                       in
                         if write_result2 \<noteq> 0
                         then Some (Inl (AssertFailed ''write_result == 0''))
                         else
                           let (erase_res, st5) = journaler_erase (jp_back jp2) st4 in
                           if erase_res \<noteq> 0
                           then Some (Inl (AssertFailed ''erase_result == 0''))
                           else
                             let jp3 = jp2\<lparr>jp_back := 0\<rparr>;
                                 (write_result3, st6) = jp_save jp3 st5
                             in
                               if write_result3 \<noteq> 0
                               then Some (Inl (AssertFailed ''write_result == 0''))
                               else
                                 Some (Inr \<lparr>status = 0,
                                            active = Some (jp_front jp3, new1\<lparr>readonly := True\<rparr>),
                                            jp_final = jp3,
                                            store = st6\<rparr>)))"

text \<open>
  \<^verbatim>\<open>_recovery_thread\<close> in its three steps: the pointer is loaded (lines 1262 to 1274); a back
  journal, if the pointer names one, is recovered and erased (\<open>erase_back\<close>, lines 1279 to
  1312); the front journal is recovered and installed or handed to the reformat
  (\<open>open_front\<close>, lines 1314 to 1347).
\<close>

definition erase_back :: "JournalPointer \<Rightarrow> rados \<Rightarrow> error + (JournalPointer \<times> rados)" where
  "erase_back jp st =
     (if jp_back jp \<noteq> 0 then
        let ((recovery_result, bj, bs), sta) = journaler_recover (jp_back jp) st in
        if recovery_result \<noteq> 0 then Inl (AssertFailed ''recovery_result == 0'')
        else
          let (erase_res, stb) = journaler_erase (jp_back jp) sta in
          if erase_res \<noteq> 0 \<and> erase_res \<noteq> - ENOENT then Inr (jp, stb)
          else
            let jp2 = jp\<lparr>jp_back := 0\<rparr>;
                (write_result, stc) = jp_save jp2 stb
            in
              if write_result < 0 then Inl (AssertFailed ''write_result >= 0'')
              else Inr (jp2, stc)
      else Inr (jp, st))"

definition open_front ::
  "u64 \<Rightarrow> int \<Rightarrow> JournalPointer \<Rightarrow> rados \<Rightarrow> (error + recovered) option" where
  "open_front nodeid mds_journal_format jp st =
     (let ((recovery_result, front_journal, script), st1) = journaler_recover (jp_front jp) st
      in
        if recovery_result \<noteq> 0
        then Some (Inr \<lparr>status = recovery_result, active = None, jp_final = jp, store = st1\<rparr>)
        else if stream_format front_journal \<ge> mds_journal_format
        then Some (Inr \<lparr>status = 0, active = Some (jp_front jp, front_journal),
                        jp_final = jp, store = st1\<rparr>)
        else reformat_journal nodeid mds_journal_format jp front_journal script st1)"

definition recovery_thread :: "u64 \<Rightarrow> int \<Rightarrow> rados \<Rightarrow> (error + recovered) option" where
  "recovery_thread nodeid mds_journal_format st =
     (let (read_result, jp0) = jp_load st;
          default_log_ino = MDS_INO_LOG_OFFSET + nodeid;
          jp1 = (if read_result = - ENOENT then jp0\<lparr>jp_front := default_log_ino\<rparr> else jp0);
          (write_result, st1) =
            (if read_result = - ENOENT then jp_save jp1 st else (0, st))
      in
        if read_result = - ENOENT \<and> write_result < 0
        then Some (Inl (AssertFailed ''write_result >= 0''))
        else if read_result \<noteq> - ENOENT \<and> read_result \<noteq> 0
        then Some (Inl (AssertFailed ''0''))
        else
          (case erase_back jp1 st1 of
             Inl e \<Rightarrow> Some (Inl e)
           | Inr (jp, st2) \<Rightarrow> open_front nodeid mds_journal_format jp st2))"

subsection \<open>A small log, for the examples\<close>

text \<open>
  One segment at offset 0 holding three events, the write position at 1000 in a layout of
  period 1024, and an event of 50 bytes started as the current entry.
\<close>

definition conf0 :: md_config where
  "conf0 = \<lparr>mds_log = True, mds_debug_subtrees = False, mds_log_max_segments = 2,
            mds_log_max_events = - 1, mds_log_max_expiring = 20,
            mds_log_skip_corrupt_events = False\<rparr>"

definition mds0 :: MDS where
  "mds0 = \<lparr>is_any_replay = False, is_resolve = False, stray = 0, subtree_map_size = 100,
           next_ev = 8, gather_answers = [], cache_trims = 0, replayed = [],
           suicided = False\<rparr>"

definition journaler0 :: Journaler where
  "journaler0 = \<lparr>write_pos = 1000, read_pos = 1000, safe_pos = 1000, expire_pos = 0,
                 layout_period = 1024, stream_format = 1, j_error = 0, readonly = False, appended = [],
                 prefetched = [], on_disk = [], flush_waiters = [], head_writes = 0,
                 flushes = 0, head_rereads = 0, reread_err = 0, disk_expire_pos = 0\<rparr>"

definition logger0 :: PerfCounters where
  "logger0 = \<lparr>l_mdl_evadd = 0, l_mdl_evex = 0, l_mdl_evtrm = 0, l_mdl_ev = 0,
              l_mdl_evexg = 0, l_mdl_evexd = 0, l_mdl_segadd = 0, l_mdl_segex = 0,
              l_mdl_segtrm = 0, l_mdl_seg = 0, l_mdl_segexg = 0, l_mdl_segexd = 0,
              l_mdl_expos = 0, l_mdl_wrpos = 0, l_mdl_rdpos = 0\<rparr>"

definition log0 :: mdlog where
  "log0 = \<lparr>conf = conf0, mds = mds0, journaler = journaler0, logger = logger0,
           clock = [5],
           segments = [(0, \<lparr>seg_id = 0, offset = 0, seg_end = 1000, seg_num_events = 3\<rparr>)],
           expiring_segments = [], expired_segments = [],
           num_events = 3, expiring_events = 0, expired_events = 0, unflushed = 0,
           capped = False, cur_event = Some 7, already_replayed = False, next_seg = 1,
           completed = [], gathers = [], waitfor_replay = []\<rparr>"

definition ev7 :: LogEvent where
  "ev7 = \<lparr>ev_id = 7, ev_type = EVENT_OTHER, ev_size = 50, start_off = 1000, stamp = 0,
          ev_segment = None\<rparr>"

definition log0_disabled :: mdlog where
  "log0_disabled = log0\<lparr>conf := conf0\<lparr>mds_log := False\<rparr>\<rparr>"

definition log0_idle :: mdlog where
  "log0_idle = log0\<lparr>cur_event := None\<rparr>"

definition log0_disabled_idle :: mdlog where
  "log0_disabled_idle = log0_disabled\<lparr>cur_event := None\<rparr>"

text \<open>The same log once the journal has grown to 3000 bytes, two periods past its segment.\<close>

definition log0_disabled_far :: mdlog where
  "log0_disabled_far = log0_disabled\<lparr>journaler := journaler0\<lparr>write_pos := 3000\<rparr>\<rparr>"

text \<open>
  A log of three segments and six events; the two oldest segments have expired.
\<close>

definition log3 :: mdlog where
  "log3 = log0\<lparr>
     segments :=
       [(0, \<lparr>seg_id = 0, offset = 0, seg_end = 100, seg_num_events = 2\<rparr>),
        (100, \<lparr>seg_id = 1, offset = 100, seg_end = 250, seg_num_events = 3\<rparr>),
        (250, \<lparr>seg_id = 2, offset = 250, seg_end = 1000, seg_num_events = 1\<rparr>)],
     expired_segments := [1, 0], num_events := 6, expired_events := 5, next_seg := 3,
     cur_event := None\<rparr>"

text \<open>The segment of \<open>log0\<close>, and the same log allowed no segment at all.\<close>

definition seg0 :: LogSegment where
  "seg0 = \<lparr>seg_id = 0, offset = 0, seg_end = 1000, seg_num_events = 3\<rparr>"

definition log0_tight :: mdlog where
  "log0_tight = log0_idle\<lparr>conf := conf0\<lparr>mds_log_max_segments := 0\<rparr>\<rparr>"

text \<open>
  A standby that follows the journal of an active server: two segments, five events, a
  waiter for the replay.  In \<open>log_standby\<close> the read position (2000) is ahead of the expire
  position (0) and the head in the object store says 2500; in \<open>log_behind\<close> the journaler
  has failed with \<^verbatim>\<open>EINVAL\<close> and the read position (500) is behind the expire position (1500).
\<close>

definition log_standby :: mdlog where
  "log_standby = log0\<lparr>
     journaler := journaler0\<lparr>read_pos := 2000, write_pos := 3000, readonly := True,
                              disk_expire_pos := 2500\<rparr>,
     segments :=
       [(0, \<lparr>seg_id = 0, offset = 0, seg_end = 1000, seg_num_events = 2\<rparr>),
        (1000, \<lparr>seg_id = 1, offset = 1000, seg_end = 2000, seg_num_events = 3\<rparr>)],
     num_events := 5, next_seg := 2, cur_event := None, waitfor_replay := [9]\<rparr>"

definition log_behind :: mdlog where
  "log_behind = log_standby\<lparr>
     journaler := journaler0\<lparr>read_pos := 500, write_pos := 3000, expire_pos := 1500,
                              readonly := True, j_error := - 22, disk_expire_pos := 1500\<rparr>\<rparr>"

text \<open>
  An object store for node 0.  Its journal at inode 512 has the old format 0 and holds two
  entries; in \<open>store_crashed\<close> a reformat has crashed: the pointer names a back journal at
  inode 768, the journal at 512 is of the current format, and the store refuses to erase
  the back journal.
\<close>

definition entry1 :: bufferlist where
  "entry1 = \<lparr>bl_length = 104,
     bl_event = Some \<lparr>ev_id = 1, ev_type = EVENT_SUBTREEMAP, ev_size = 100, start_off = 0,
                       stamp = 0, ev_segment = None\<rparr>\<rparr>"

definition entry2 :: bufferlist where
  "entry2 = \<lparr>bl_length = 54,
     bl_event = Some \<lparr>ev_id = 2, ev_type = EVENT_OTHER, ev_size = 50, start_off = 108,
                       stamp = 0, ev_segment = None\<rparr>\<rparr>"

definition old_journal :: Journaler where
  "old_journal = empty_journaler\<lparr>write_pos := 166, layout_period := 1024,
     on_disk := [Entry entry1, Entry entry2]\<rparr>"

definition store_old :: rados where
  "store_old = \<lparr>pointer = Some \<lparr>jp_front = 512, jp_back = 0\<rparr>, load_err = 0,
     save_result = 0,
     journals = [(512, \<lparr>recover_result = 0, erase_result = 0, contents = old_journal,
                          fetches = [Fetched 2]\<rparr>)],
     io_log = []\<rparr>"

definition store_crashed :: rados where
  "store_crashed = \<lparr>pointer = Some \<lparr>jp_front = 512, jp_back = 768\<rparr>, load_err = 0,
     save_result = 0,
     journals =
       [(512, \<lparr>recover_result = 0, erase_result = 0,
                 contents = old_journal\<lparr>stream_format := 1\<rparr>, fetches = [Fetched 2]\<rparr>),
        (768, \<lparr>recover_result = 0, erase_result = - 5,
                 contents = journaler_create 1024 1, fetches = []\<rparr>)],
     io_log = []\<rparr>"

definition store_crashed_ok :: rados where
  "store_crashed_ok = store_crashed\<lparr>journals :=
       [(512, \<lparr>recover_result = 0, erase_result = 0,
                 contents = old_journal\<lparr>stream_format := 1\<rparr>, fetches = [Fetched 2]\<rparr>),
        (768, \<lparr>recover_result = 0, erase_result = 0,
                 contents = journaler_create 1024 1, fetches = []\<rparr>)]\<rparr>"

subsection \<open>Facts about the containers and the clock\<close>

lemma map_assign_not_Nil: "map_assign k v m \<noteq> []"
  by (cases m) (auto split: if_splits)

lemma map_assign_mem: "(k, v) \<in> set (map_assign k v m)"
  by (induction m) auto

lemma last_map_assign:
  "sorted_wrt (<) (map fst m) \<Longrightarrow> \<forall>k' \<in> set (map fst m). k' \<le> k \<Longrightarrow>
     last (map_assign k v m) = (k, v)"
proof (induction m)
  case Nil
  then show ?case by simp
next
  case (Cons a m)
  obtain k' v' where a: "a = (k', v')" by (cases a)
  show ?case
  proof (cases "k = k'")
    case True
    with Cons.prems a have "m = []"
      by (cases m) (auto simp: not_less [symmetric])
    with True a show ?thesis by simp
  next
    case False
    with Cons a show ?thesis by (auto simp: map_assign_not_Nil)
  qed
qed

lemma keys_map_assign:
  "set (map fst (map_assign k v m)) = insert k (set (map fst m))"
  by (induction k v m rule: map_assign.induct) (simp_all add: insert_commute)

lemma sorted_map_assign:
  "sorted_wrt (<) (map fst m) \<Longrightarrow> sorted_wrt (<) (map fst (map_assign k v m))"
proof (induction m)
  case Nil
  then show ?case by simp
next
  case (Cons a m)
  obtain k' v' where a: "a = (k', v')" by (cases a)
  from Cons.prems a have below: "\<forall>x \<in> set (map fst m). k' < x"
    and sm: "sorted_wrt (<) (map fst m)" by simp_all
  show ?case
  proof (cases "k < k'")
    case True
    with below sm a show ?thesis by (auto intro: less_trans)
  next
    case False
    show ?thesis
    proof (cases "k = k'")
      case True
      with below sm a show ?thesis by simp
    next
      case ne: False
      with False have "k' < k" by simp
      with below have "\<forall>x \<in> set (map fst (map_assign k v m)). k' < x"
        by (simp only: keys_map_assign) simp
      with False ne a Cons.IH [OF sm] show ?thesis by simp
    qed
  qed
qed

lemma ceph_clock_now_fields:
  "conf (snd (ceph_clock_now s)) = conf s"
  "mds (snd (ceph_clock_now s)) = mds s"
  "journaler (snd (ceph_clock_now s)) = journaler s"
  "logger (snd (ceph_clock_now s)) = logger s"
  "segments (snd (ceph_clock_now s)) = segments s"
  "expiring_segments (snd (ceph_clock_now s)) = expiring_segments s"
  "expired_segments (snd (ceph_clock_now s)) = expired_segments s"
  "num_events (snd (ceph_clock_now s)) = num_events s"
  "expiring_events (snd (ceph_clock_now s)) = expiring_events s"
  "expired_events (snd (ceph_clock_now s)) = expired_events s"
  "unflushed (snd (ceph_clock_now s)) = unflushed s"
  "capped (snd (ceph_clock_now s)) = capped s"
  "cur_event (snd (ceph_clock_now s)) = cur_event s"
  "next_seg (snd (ceph_clock_now s)) = next_seg s"
  "completed (snd (ceph_clock_now s)) = completed s"
  "gathers (snd (ceph_clock_now s)) = gathers s"
  by (simp_all add: ceph_clock_now_def split: list.split)

subsection \<open>Facts about submitting an entry\<close>

lemma last_sorted_Max:
  "sorted_wrt (<) (map fst m) \<Longrightarrow> m \<noteq> [] \<Longrightarrow> fst (last m) = Max (set (map fst m))"
proof (induction m)
  case Nil
  then show ?case by simp
next
  case (Cons a m)
  show ?case
  proof (cases "m = []")
    case True
    then show ?thesis by simp
  next
    case False
    with Cons have ih: "fst (last m) = Max (set (map fst m))" by simp
    from False have "last m \<in> set m" by simp
    with Cons.prems have "fst a < fst (last m)" by auto
    with ih False show ?thesis by (auto simp: max_def)
  qed
qed


lemma submit_entry_append_frame:
  assumes "submit_entry_append le c s = Inr s1"
  shows "write_pos (journaler s1) = write_pos (journaler s) + of_nat (8 + ev_size le)"
    and "seg_keys s1 = seg_keys s"
    and "segments s1 \<noteq> []"
    and "logger s1 = (logger s)\<lparr>l_mdl_evadd := l_mdl_evadd (logger s) + 1,
           l_mdl_ev := num_events s + 1,
           l_mdl_wrpos := uint (write_pos (journaler s) + of_nat (8 + ev_size le))\<rparr>"
    and "mds s1 = mds s" and "conf s1 = conf s" and "next_seg s1 = next_seg s"
    and "layout_period (journaler s1) = layout_period (journaler s)"
    and "length (appended (journaler s1)) = Suc (length (appended (journaler s)))"
    and "cur_event s1 = cur_event s" and "capped s1 = capped s"
proof -
  from assms have ne: "segments s \<noteq> []" and nc: "\<not> capped s"
    by (auto simp: submit_entry_append_def Let_def split_beta ceph_clock_now_fields
        split: if_splits)
  have bl: "butlast (segments s) @ [last (segments s)] = segments s"
    using ne by simp
  have keys: "seg_keys s = map (\<lambda>kv. (fst kv, seg_id (snd kv))) (butlast (segments s))
       @ [(fst (last (segments s)), seg_id (snd (last (segments s))))]"
    unfolding seg_keys_def by (subst (1) bl [symmetric]) simp
  from assms ne nc show "write_pos (journaler s1) = write_pos (journaler s) + of_nat (8 + ev_size le)"
    by (cases c) (auto simp: submit_entry_append_def Let_def split_beta ceph_clock_now_fields
        append_entry_def encode_with_header_def wait_for_flush_def)
  from assms ne nc show "seg_keys s1 = seg_keys s"
    unfolding keys
    by (auto simp: submit_entry_append_def Let_def split_beta ceph_clock_now_fields seg_keys_def)
  from assms ne nc show "segments s1 \<noteq> []"
    by (auto simp: submit_entry_append_def Let_def split_beta ceph_clock_now_fields)
  from assms ne nc show "logger s1 = (logger s)\<lparr>l_mdl_evadd := l_mdl_evadd (logger s) + 1,
           l_mdl_ev := num_events s + 1,
           l_mdl_wrpos := uint (write_pos (journaler s) + of_nat (8 + ev_size le))\<rparr>"
    by (auto simp: submit_entry_append_def Let_def split_beta ceph_clock_now_fields
        append_entry_def encode_with_header_def)
  from assms ne nc show "mds s1 = mds s" "conf s1 = conf s" "next_seg s1 = next_seg s"
    "cur_event s1 = cur_event s" "capped s1 = capped s"
    by (auto simp: submit_entry_append_def Let_def split_beta ceph_clock_now_fields)
  from assms ne nc show "layout_period (journaler s1) = layout_period (journaler s)"
    "length (appended (journaler s1)) = Suc (length (appended (journaler s)))"
    by (cases c; auto simp: submit_entry_append_def Let_def split_beta ceph_clock_now_fields
        append_entry_def encode_with_header_def wait_for_flush_def)+
qed

lemma submit_entry_suppressed:
  assumes "mds_log (conf s)" and "rotation_suppressed le s"
    and "submit_entry le c s = Inr s'"
  shows "submit_entry_append le c (s\<lparr>cur_event := None\<rparr>) = Inr s'"
proof -
  from assms(1,3) obtain s1 where
    app: "submit_entry_append le c (s\<lparr>cur_event := None\<rparr>) = Inr s1"
    by (auto simp: submit_entry.simps split: if_splits sum.splits)
  have "mds s1 = mds s"
    using submit_entry_append_frame(5) [OF app] by simp
  with assms app show ?thesis
    by (auto simp: submit_entry.simps rotation_suppressed_def split: if_splits sum.splits)
qed

lemma create_subtree_map_frame:
  assumes "create_subtree_map s = Inr (le, s1)"
  shows "s1 = s\<lparr>mds := (mds s)\<lparr>next_ev := Suc (next_ev (mds s))\<rparr>, cur_event := Some (ev_id le)\<rparr>"
    and "ev_type le = EVENT_SUBTREEMAP" and "ev_size le = subtree_map_size (mds s)"
  using assms by (auto simp: create_subtree_map_def start_entry_def split: if_splits)

lemma start_new_segment_frame:
  assumes "mds_log (conf s)" and "start_new_segment onsync s = Inr s'"
  shows "l_mdl_segadd (logger s') = l_mdl_segadd (logger s) + 1"
    and "(write_pos (journaler s), next_seg s) \<in> set (seg_keys s')"
    and "next_seg s' = Suc (next_seg s)"
    and "stray (mds s') = Suc (stray (mds s))"
proof -
  let ?p = "prepare_new_segment s"
  from assms(2) obtain s1 where j: "journal_segment_subtree_map ?p = Inr s1"
    and s': "s' = (case onsync of None \<Rightarrow> s1 | Some x \<Rightarrow> flush (wait_for_safe x s1))"
    by (auto simp: start_new_segment.simps split: sum.splits option.splits)
  from j obtain le s2 where cr: "create_subtree_map ?p = Inr (le, s2)"
    and sub: "submit_entry le None s2 = Inr s1"
    by (auto simp: journal_segment_subtree_map.simps split: sum.splits)
  note fr = create_subtree_map_frame [OF cr]
  have conf2: "mds_log (conf s2)"
    using assms(1) by (simp add: fr(1) prepare_new_segment_def Let_def)
  have sup: "rotation_suppressed le s2"
    by (simp add: rotation_suppressed_def fr(2))
  note app = submit_entry_append_frame [OF submit_entry_suppressed [OF conf2 sup sub]]
  have keys: "seg_keys s1 = seg_keys ?p"
    using app(2) by (simp add: fr(1) seg_keys_def)
  have "(write_pos (journaler s), next_seg s) \<in> set (seg_keys ?p)"
    unfolding seg_keys_def prepare_new_segment_def Let_def
    using map_assign_mem [of "write_pos (journaler s)"
        "new_LogSegment (next_seg s) (write_pos (journaler s))" "segments s"]
    by (force simp: new_LogSegment_def)
  with keys have k1: "(write_pos (journaler s), next_seg s) \<in> set (seg_keys s1)" by simp
  have a: "l_mdl_segadd (logger s1) = l_mdl_segadd (logger s) + 1"
    "next_seg s1 = Suc (next_seg s)" "stray (mds s1) = Suc (stray (mds s))"
    using app(4,5,7) by (simp_all add: fr(1) prepare_new_segment_def Let_def)
  show "l_mdl_segadd (logger s') = l_mdl_segadd (logger s) + 1"
    and "(write_pos (journaler s), next_seg s) \<in> set (seg_keys s')"
    and "next_seg s' = Suc (next_seg s)"
    and "stray (mds s') = Suc (stray (mds s))"
    using a k1 unfolding s'
    by (auto simp: flush_def wait_for_safe_def complete_def seg_keys_def split: option.splits)
qed

subsection \<open>Facts about trimming\<close>

lemma index_wf_Cons:
  "index_wf (kv # segs) \<Longrightarrow> index_wf segs"
  by (simp add: index_wf_def)

lemma map_erase_head:
  assumes "index_wf ((k, ls) # rest)"
  shows "map_erase (offset ls) ((k, ls) # rest) = rest"
proof -
  from assms have "offset ls = k" and "\<forall>kv \<in> set rest. k < fst kv"
    by (auto simp: index_wf_def)
  then show ?thesis
    by (auto simp: map_erase_def filter_id_conv)
qed

lemma takeWhile_erased:
  assumes "\<forall>kv \<in> set rest. seg_id (snd kv) \<noteq> a"
  shows "takeWhile (\<lambda>kv. set_count (seg_id (snd kv)) (set_erase a xs)) rest =
         takeWhile (\<lambda>kv. set_count (seg_id (snd kv)) xs) rest"
  using assms by (intro takeWhile_cong) (auto simp: set_count_def set_erase_def)

lemma trim_expired_loop_run:
  assumes "segments s = segs" and "index_wf segs"
    and "removed = takeWhile (is_expired s) segs"
    and "r = trim_expired_loop t s"
  shows "fst r = (t \<or> removed \<noteq> []) \<and>
         segments (snd r) = drop (length removed) segs \<and>
         set (expired_segments (snd r)) =
           set (expired_segments s) - set (map (\<lambda>kv. seg_id (snd kv)) removed) \<and>
         num_events (snd r) = num_events s - sum_list (map (\<lambda>kv. seg_num_events (snd kv)) removed) \<and>
         expired_events (snd r) =
           expired_events s - sum_list (map (\<lambda>kv. seg_num_events (snd kv)) removed) \<and>
         expire_pos (journaler (snd r)) =
           (if removed = [] then expire_pos (journaler s)
            else max (expire_pos (journaler s)) (fst (last removed))) \<and>
         head_writes (journaler (snd r)) = head_writes (journaler s)"
  using assms
proof (induction segs arbitrary: s t removed r)
  case Nil
  then show ?case by (simp add: trim_expired_loop.simps)
next
  case (Cons kv rest)
  obtain k ls where kv: "kv = (k, ls)" by (cases kv)
  show ?case
  proof (cases "set_count (seg_id ls) (expired_segments s)")
    case False
    then have "\<not> is_expired s (k, ls)"
      by (simp add: is_expired_def)
    with False Cons.prems kv show ?thesis
      by (simp add: trim_expired_loop.simps)
  next
    case True
    let ?s1 = "s\<lparr>expired_events := expired_events s - seg_num_events ls,
                 expired_segments := set_erase (seg_id ls) (expired_segments s),
                 num_events := num_events s - seg_num_events ls,
                 journaler :=
                   (if expire_pos (journaler s) < offset ls
                    then (journaler s)\<lparr>expire_pos := offset ls\<rparr>
                    else journaler s),
                 logger := (logger s)\<lparr>l_mdl_expos := uint (offset ls),
                                       l_mdl_segtrm := l_mdl_segtrm (logger s) + 1,
                                       l_mdl_evtrm := l_mdl_evtrm (logger s) + seg_num_events ls\<rparr>,
                 segments := map_erase (offset ls) (segments s)\<rparr>"
    have wf: "index_wf ((k, ls) # rest)" using Cons.prems(2) kv by simp
    have off: "offset ls = k" using wf by (simp add: index_wf_def)
    have seg1: "segments ?s1 = rest"
      using map_erase_head [OF wf] Cons.prems(1) kv by simp
    have r: "r = trim_expired_loop True ?s1"
      using Cons.prems(1,4) kv True by (simp add: trim_expired_loop.simps [of t s])
    have other: "\<forall>kv \<in> set rest. seg_id (snd kv) \<noteq> seg_id ls"
      using wf by (force simp: index_wf_def)
    have tw: "takeWhile (is_expired ?s1) rest = takeWhile (is_expired s) rest"
      unfolding is_expired_def using takeWhile_erased [OF other] by simp
    have "is_expired s (k, ls)"
      using True by (simp add: is_expired_def)
    then have rem: "removed = (k, ls) # takeWhile (is_expired s) rest"
      using Cons.prems(3) kv by simp
    note ih = Cons.IH [OF seg1 index_wf_Cons [OF wf] tw [symmetric] r]
    have lastk: "takeWhile (is_expired s) rest \<noteq> [] \<Longrightarrow>
        k < fst (last (takeWhile (is_expired s) rest))"
    proof -
      assume ne: "takeWhile (is_expired s) rest \<noteq> []"
      then have "last (takeWhile (is_expired s) rest) \<in> set rest"
        using set_takeWhileD last_in_set by metis
      then show ?thesis using wf by (auto simp: index_wf_def)
    qed
    show ?thesis
      using ih lastk unfolding rem
      by (auto simp: off set_erase_def max_def)
  qed
qed

subsection \<open>Facts about expiry\<close>

lemma current_kept_cong:
  "segments s1 = segments s \<Longrightarrow> capped s1 = capped s \<Longrightarrow>
   expired_segments s1 = expired_segments s \<Longrightarrow> current_kept a s1 = current_kept a s"
  by (simp add: current_kept_def peek_current_segment_def)

lemma try_to_expire_frame:
  assumes "try_to_expire s = (b, s1)"
  shows "segments s1 = segments s" and "capped s1 = capped s"
    and "expired_segments s1 = expired_segments s"
    and "expiring_segments s1 = expiring_segments s"
    and "num_events s1 = num_events s" and "journaler s1 = journaler s"
    and "conf s1 = conf s"
  using assms by (auto simp: try_to_expire_def split: list.splits)

lemma expired_frame:
  "segments (expired ls s) = segments s" "capped (expired ls s) = capped s"
  "num_events (expired ls s) = num_events s" "journaler (expired ls s) = journaler s"
  "conf (expired ls s) = conf s" "expiring_segments (expired ls s) = expiring_segments s"
  by (simp_all add: expired_def Let_def)

lemma expired_current_kept:
  "current_kept a s \<Longrightarrow> current_kept a (expired ls s)"
  by (auto simp: current_kept_def expired_def Let_def peek_current_segment_def set_insert_def)

lemma try_expire_frame:
  assumes "try_expire ls prio s = Inr s'"
  shows "segments s' = segments s" and "capped s' = capped s"
    and "num_events s' = num_events s" and "journaler s' = journaler s"
    and "conf s' = conf s"
proof -
  obtain b s1 where t: "try_to_expire s = (b, s1)" by (cases "try_to_expire s")
  from assms t try_to_expire_frame [OF t]
  show "segments s' = segments s" and "capped s' = capped s"
    and "num_events s' = num_events s" and "journaler s' = journaler s"
    and "conf s' = conf s"
    by (auto simp: try_expire_def Let_def expired_frame split: if_splits)
qed

lemma try_expire_current_kept:
  assumes "try_expire ls prio s = Inr s'" and "current_kept a s"
  shows "current_kept a s'"
proof -
  obtain b s1 where t: "try_to_expire s = (b, s1)" by (cases "try_to_expire s")
  have k1: "current_kept a s1"
    using assms(2) current_kept_cong [OF try_to_expire_frame(1,2,3) [OF t]] by simp
  show ?thesis
  proof (cases b)
    case True
    with assms(1) t have "segments s' = segments s1" "capped s' = capped s1"
      "expired_segments s' = expired_segments s1"
      by (auto simp: try_expire_def Let_def split: if_splits)
    from current_kept_cong [OF this] k1 show ?thesis by simp
  next
    case False
    with assms(1) t have "segments s' = segments (expired ls s1)"
      "capped s' = capped (expired ls s1)"
      "expired_segments s' = expired_segments (expired ls s1)"
      by (auto simp: try_expire_def Let_def)
    from current_kept_cong [OF this] expired_current_kept [OF k1, of ls]
    show ?thesis by simp
  qed
qed

lemma trim_loop_frame:
  assumes "trim_loop me ms stop segs s = Inr s'"
  shows "segments s' = segments s \<and> capped s' = capped s \<and> num_events s' = num_events s \<and>
         journaler s' = journaler s \<and> conf s' = conf s \<and>
         (current_kept a s \<longrightarrow> current_kept a s')"
  using assms
proof (induction segs arbitrary: s)
  case Nil
  then show ?case by simp
next
  case (Cons p rest)
  obtain now s1 where c: "ceph_clock_now s = (now, s1)" by (cases "ceph_clock_now s")
  then have s1: "s1 = snd (ceph_clock_now s)" by simp
  have f1: "segments s1 = segments s" "capped s1 = capped s" "num_events s1 = num_events s"
    "journaler s1 = journaler s" "conf s1 = conf s" "expired_segments s1 = expired_segments s"
    unfolding s1 by (simp_all add: ceph_clock_now_fields)
  have k1: "current_kept a s1 = current_kept a s"
    using current_kept_cong [OF f1(1,2,6)] .
  consider (halt) "s' = s \<or> s' = s1"
    | (pass) "trim_loop me ms stop rest s1 = Inr s'"
    | (expire) s2 where "try_expire (snd p) (CEPH_MSG_PRIO_LOW +
                  (CEPH_MSG_PRIO_HIGH - CEPH_MSG_PRIO_LOW) * int (length (expiring_segments s1))
                    div mds_log_max_expiring (conf s1)) s1 = Inr s2"
        and "trim_loop me ms stop rest s2 = Inr s'"
    using Cons.prems c
    by (auto simp: Let_def split: if_splits sum.splits)
  then show ?case
  proof cases
    case halt
    with f1 k1 show ?thesis by auto
  next
    case pass
    from Cons.IH [OF pass] f1 k1 show ?thesis by simp
  next
    case expire
    from Cons.IH [OF expire(2)] try_expire_frame [OF expire(1)]
      try_expire_current_kept [OF expire(1), of a] f1 k1
    show ?thesis by simp
  qed
qed

lemma trim_expired_loop_capped:
  "capped (snd (trim_expired_loop t s)) = capped s"
proof (induction t s rule: trim_expired_loop.induct)
  case (1 trimmed s)
  show ?case
  proof (cases "segments s")
    case Nil
    then show ?thesis by (simp add: trim_expired_loop.simps [of trimmed s])
  next
    case (Cons kv rest)
    obtain k ls where kv: "kv = (k, ls)" by (cases kv)
    show ?thesis
    proof (cases "set_count (seg_id ls) (expired_segments s)")
      case False
      with Cons kv show ?thesis by (simp add: trim_expired_loop.simps [of trimmed s])
    next
      case True
      from "1.IH" [OF Cons kv [symmetric] _ ] True Cons kv show ?thesis
        by (simp add: trim_expired_loop.simps [of trimmed s])
    qed
  qed
qed

lemma takeWhile_short:
  assumes "xs \<noteq> []" and "\<not> P (last xs)"
  shows "length (takeWhile P xs) < length xs"
proof (rule ccontr)
  assume "\<not> length (takeWhile P xs) < length xs"
  then have "length (takeWhile P xs) = length xs"
    using length_takeWhile_le [of P xs] by simp
  then have "takeWhile P xs = xs"
    by (metis takeWhile_dropWhile_id append_eq_conv_conj length_0_conv length_drop
        diff_self_eq_0 append_Nil2)
  then have "\<forall>x \<in> set xs. P x" by (simp add: takeWhile_eq_all_conv)
  with assms show False by simp
qed

lemma trim_expired_segments_current_kept:
  assumes wf: "index_wf (segments s)" and k: "current_kept a s"
  shows "current_kept a (trim_expired_segments s)"
proof -
  define r where "r = trim_expired_loop False s"
  define removed where "removed = takeWhile (is_expired s) (segments s)"
  note run = trim_expired_loop_run [OF refl wf removed_def r_def]
  let ?s' = "trim_expired_segments s"
  have seg: "segments ?s' = segments (snd r)"
    and ex: "expired_segments ?s' = expired_segments (snd r)"
    and cp: "capped ?s' = capped (snd r)"
    unfolding trim_expired_segments_def r_def [symmetric] split_beta Let_def
    by simp_all
  from k have ne: "segments s \<noteq> []" and la: "seg_id (snd (last (segments s))) = a"
    and nx: "a \<notin> set (expired_segments s)" and nc: "\<not> capped s"
    by (auto simp: current_kept_def peek_current_segment_def split: if_splits)
  have "\<not> is_expired s (last (segments s))"
    using la nx by (simp add: is_expired_def set_count_def)
  from takeWhile_short [of "segments s" "is_expired s", OF ne this]
  have short: "length removed < length (segments s)" by (simp add: removed_def)
  have seg': "segments ?s' = drop (length removed) (segments s)"
    unfolding seg using run by blast
  have "segments ?s' \<noteq> []" "last (segments ?s') = last (segments s)"
    unfolding seg' using short by simp_all
  moreover have "set (expired_segments ?s') \<subseteq> set (expired_segments s)"
    unfolding ex using run by blast
  moreover have "capped ?s' = capped s"
    unfolding cp r_def by (rule trim_expired_loop_capped)
  ultimately show ?thesis
    using la nx nc by (auto simp: current_kept_def peek_current_segment_def)
qed

lemma trim_current_kept:
  assumes "trim m s = Inr s'" and "index_wf (segments s)" and "current_kept a s"
  shows "current_kept a s'"
proof -
  obtain now s1 where c: "ceph_clock_now s = (now, s1)" by (cases "ceph_clock_now s")
  then have s1: "s1 = snd (ceph_clock_now s)" by simp
  have f1: "segments s1 = segments s" "capped s1 = capped s"
    "expired_segments s1 = expired_segments s"
    unfolding s1 by (simp_all add: ceph_clock_now_fields)
  have k1: "current_kept a s1"
    using current_kept_cong [OF f1] assms(3) by simp
  from assms(3) have ne: "segments s \<noteq> []"
    by (auto simp: current_kept_def peek_current_segment_def split: if_splits)
  with assms(1) c obtain s2 where
    loop: "trim_loop (if m \<ge> 0 then m else mds_log_max_events (conf s))
             (mds_log_max_segments (conf s)) (now + two_seconds) (segments s1) s1 = Inr s2"
    and s': "s' = trim_expired_segments s2"
    by (auto simp: trim_def Let_def split: sum.splits)
  from trim_loop_frame [OF loop, of a] k1 f1 assms(2)
  have "current_kept a s2" and "index_wf (segments s2)" by simp_all
  then show ?thesis
    unfolding s' by (intro trim_expired_segments_current_kept)
qed

subsection \<open>Facts about the trim loop\<close>

lemma sets_wf_count:
  assumes "sets_wf s"
  shows "length (expiring_segments s) + length (expired_segments s) \<le> length (segments s)"
proof -
  let ?ids = "map (\<lambda>kv. seg_id (snd kv)) (segments s)"
  from assms have d: "distinct ?ids" "distinct (expiring_segments s)"
    "distinct (expired_segments s)"
    and dj: "set (expiring_segments s) \<inter> set (expired_segments s) = {}"
    and sub: "set (expiring_segments s) \<union> set (expired_segments s) \<subseteq> set ?ids"
    by (simp_all add: sets_wf_def)
  have "length (expiring_segments s) + length (expired_segments s)
        = card (set (expiring_segments s)) + card (set (expired_segments s))"
    using d by (simp add: distinct_card)
  also have "\<dots> = card (set (expiring_segments s) \<union> set (expired_segments s))"
    using dj by (simp add: card_Un_disjoint)
  also have "\<dots> \<le> card (set ?ids)"
    using sub by (intro card_mono) simp_all
  also have "\<dots> = length (segments s)"
    using d(1) distinct_card [of ?ids] by simp
  finally show ?thesis .
qed

lemma over_max_segments_live:
  assumes "sets_wf s" and "ms < 2 ^ 31"
  shows "over_max_segments ms s = (ms \<ge> 0 \<and> live_segments s > ms)"
proof (cases "ms \<ge> 0")
  case False
  then show ?thesis by (simp add: over_max_segments_def)
next
  case True
  let ?a = "length (segments s)" and ?b = "length (expiring_segments s)"
    and ?c = "length (expired_segments s)"
  have le: "?b + ?c \<le> ?a" using sets_wf_count [OF assms(1)] .
  have lt: "?a < 2 ^ 64" using assms(1) by (simp add: sets_wf_def)
  have "(of_nat ?a :: u64) - of_nat ?b - of_nat ?c = of_nat (?a - ?b - ?c)"
    using le by (simp add: of_nat_diff)
  then have l: "unat (size_t ?a - size_t ?b - size_t ?c) = ?a - ?b - ?c"
    using lt by (simp add: size_t_def unat_of_nat)
  have u: "uint (word_of_int ms :: 32 word) = ms"
    using True assms(2) by (simp add: uint_word_of_int)
  have "unat (ucast (word_of_int ms :: 32 word) :: u64)
        = take_bit 64 (unat (word_of_int ms :: 32 word))"
    by (simp add: unsigned_ucast_eq)
  also have "\<dots> = unat (word_of_int ms :: 32 word)"
    by (rule take_bit_nat_eq_self)
       (use unsigned_less [of "word_of_int ms :: 32 word", where ?'a = nat] in simp)
  also have "\<dots> = nat ms" using u by (simp add: unat_eq_nat_uint)
  finally have r: "unat (ucast (word_of_int ms :: 32 word) :: u64) = nat ms" .
  show ?thesis
    using True le by (simp add: over_max_segments_def word_less_nat_alt l r live_segments_def)
      linarith
qed

lemma within_bounds_machine:
  assumes "sets_wf s" and "ms < 2 ^ 31"
  shows "within_bounds me ms s = (\<not> (over_max_events me s \<or> over_max_segments ms s))"
  unfolding over_max_segments_live [OF assms]
  by (auto simp: within_bounds_def over_max_events_def live_events_def)

lemma sets_wf_cong:
  "segments s1 = segments s \<Longrightarrow> expiring_segments s1 = expiring_segments s \<Longrightarrow>
   expired_segments s1 = expired_segments s \<Longrightarrow> sets_wf s1 = sets_wf s"
  by (simp add: sets_wf_def)

lemma try_expire_sets_wf:
  assumes "try_expire ls prio s = Inr s'" and "sets_wf s"
    and "seg_id ls \<in> set (map (\<lambda>kv. seg_id (snd kv)) (segments s))"
    and "seg_id ls \<notin> set (expiring_segments s)"
    and "seg_id ls \<notin> set (expired_segments s)"
  shows "sets_wf s'"
proof -
  obtain b s1 where t: "try_to_expire s = (b, s1)" by (cases "try_to_expire s")
  note f = try_to_expire_frame [OF t]
  show ?thesis
  proof (cases b)
    case True
    with assms(1) t have "segments s' = segments s"
      "expiring_segments s' = set_insert (seg_id ls) (expiring_segments s)"
      "expired_segments s' = expired_segments s"
      using f by (auto simp: try_expire_def Let_def split: if_splits)
    with assms(2-5) show ?thesis
      by (auto simp: sets_wf_def set_insert_def simp del: set_map)
  next
    case False
    with assms(1) t have "segments s' = segments s"
      "expiring_segments s' = expiring_segments s"
      "expired_segments s' = expired_segments s \<or>
       expired_segments s' = set_insert (seg_id ls) (expired_segments s)"
      using f by (auto simp: try_expire_def Let_def expired_def split: if_splits)
    with assms(2-5) show ?thesis
      by (auto simp: sets_wf_def set_insert_def simp del: set_map)
  qed
qed

lemma trim_loop_refines:
  assumes "sets_wf s" and "ms < 2 ^ 31"
    and "\<forall>p \<in> set segs. seg_id (snd p) \<in> set (map (\<lambda>kv. seg_id (snd kv)) (segments s))"
  shows "trim_loop me ms stop segs s = trim_loop_spec me ms stop segs s"
  using assms
proof (induction segs arbitrary: s)
  case Nil
  then show ?case by simp
next
  case (Cons p rest)
  obtain now s1 where c: "ceph_clock_now s = (now, s1)" by (cases "ceph_clock_now s")
  then have s1: "s1 = snd (ceph_clock_now s)" by simp
  have f1: "segments s1 = segments s" "expiring_segments s1 = expiring_segments s"
    "expired_segments s1 = expired_segments s"
    unfolding s1 by (simp_all add: ceph_clock_now_fields)
  have wf1: "sets_wf s1" using sets_wf_cong [OF f1] Cons.prems(1) by simp
  have mem: "seg_id (snd p) \<in> set (map (\<lambda>kv. seg_id (snd kv)) (segments s1))"
    and rest: "\<forall>q \<in> set rest. seg_id (snd q) \<in> set (map (\<lambda>kv. seg_id (snd kv)) (segments s1))"
    using Cons.prems(3) f1 by simp_all
  have skip: "trim_loop me ms stop rest s1 = trim_loop_spec me ms stop rest s1"
    using Cons.IH [OF wf1 Cons.prems(2) rest] .
  have exp: "trim_loop me ms stop rest s2 = trim_loop_spec me ms stop rest s2"
    if "try_expire (snd p) (interpolated_prio s1) s1 = Inr s2"
      and "seg_id (snd p) \<notin> set (expiring_segments s1)"
      and "seg_id (snd p) \<notin> set (expired_segments s1)" for s2
  proof -
    have "sets_wf s2" using try_expire_sets_wf [OF that(1) wf1 mem that(2,3)] .
    moreover have "segments s2 = segments s1" using try_expire_frame(1) [OF that(1)] .
    ultimately show ?thesis using Cons.IH [of s2] Cons.prems(2) rest by simp
  qed
  show ?case
    using within_bounds_machine [OF Cons.prems(1,2), of me] c skip exp
    by (auto simp: Let_def set_count_def interpolated_prio_def split: sum.splits)
qed

subsection \<open>Facts about replay\<close>

lemma wait_readable_error:
  "j_error j \<noteq> 0 \<Longrightarrow> wait_readable script j = Some (script, j)"
  by (cases script) (simp_all add: must_wait_def)

lemma replay_loop_error:
  assumes "wait_readable script (journaler s) = Some (script1, j1)" and "j_error j1 \<noteq> 0"
  shows "replay_loop script s = Some (replay_error (s\<lparr>journaler := j1\<rparr>))"
  using assms by (simp add: replay_loop.simps [of script s])

lemma replay_thread_error:
  assumes "wait_readable script (journaler s) = Some (script1, j1)" and "j_error j1 \<noteq> 0"
    and "replay_error (s\<lparr>journaler := j1\<rparr>) = Inr (r, s')" and "r \<noteq> 0"
  shows "replay_thread script s = Some (Inr (finish_contexts r s'))"
  using replay_loop_error [OF assms(1,2)] assms(3,4)
  by (simp add: replay_thread_def)

subsection \<open>Facts about recovery and reformat\<close>

lemma append_entry_format: "stream_format (append_entry bl j) = stream_format j"
  by (simp add: append_entry_def)

lemma transcribe_format:
  "transcribe script old new = Some (Inr (r, old1, new1)) \<Longrightarrow>
     stream_format new1 = stream_format new"
proof (induction script old new rule: transcribe.induct)
  case (1 script old new)
  from "1.prems" obtain script1 j1 where
    w: "wait_readable script old = Some (script1, j1)"
    by (auto simp: transcribe.simps [of script old new] split: option.splits)
  show ?case
  proof (cases "j_error j1 \<noteq> 0 \<or> \<not> is_readable j1")
    case True
    with "1.prems" w show ?thesis
      by (auto simp: transcribe.simps [of script old new] split: if_splits)
  next
    case False
    obtain x j2 where t: "try_read_entry j1 = (x, j2)" by (cases "try_read_entry j1")
    show ?thesis
    proof (cases x)
      case None
      with "1.prems" w False t have e: "j_error j2 \<noteq> 0"
        and "transcribe script1 j2 new = Some (Inr (r, old1, new1))"
        by (auto simp: transcribe.simps [of script old new] split: if_splits)
      with "1.IH"(1) [OF w refl _ _ _ t [symmetric] None e] False show ?thesis
        by auto
    next
      case (Some bl)
      with "1.prems" w False t
      have "transcribe script1 j2 (append_entry bl new) = Some (Inr (r, old1, new1))"
        by (auto simp: transcribe.simps [of script old new] split: if_splits)
      with "1.IH"(2) [OF w refl _ _ _ t [symmetric] Some] False show ?thesis
        by (auto simp: append_entry_format)
    qed
  qed
qed


lemma reformat_journal_success:
  assumes "reformat_journal nodeid fmt jp old script st = Some (Inr res)"
  shows "status res = 0"
    and "jp_final res = \<lparr>jp_front = other_ino nodeid (jp_front jp), jp_back = 0\<rparr>"
    and "pointer (store res) = Some (jp_final res)"
    and "\<exists>nj. active res = Some (other_ino nodeid (jp_front jp), nj) \<and>
              stream_format nj = fmt \<and> readonly nj"
    and "io_log (store res) = io_log st @
           [SavePointer \<lparr>jp_front = jp_front jp, jp_back = other_ino nodeid (jp_front jp)\<rparr>,
            WriteHead (other_ino nodeid (jp_front jp)),
            Flush (other_ino nodeid (jp_front jp)),
            SavePointer \<lparr>jp_front = other_ino nodeid (jp_front jp), jp_back = jp_front jp\<rparr>,
            Erase (jp_front jp),
            SavePointer \<lparr>jp_front = other_ino nodeid (jp_front jp), jp_back = 0\<rparr>]"
proof -
  let ?new = "other_ino nodeid (jp_front jp)"
  let ?nj = "journaler_create (layout_period old) fmt"
  from assms obtain old1 new1 where
    tr: "transcribe script old ?nj = Some (Inr (0, old1, new1))"
    by (auto simp: reformat_journal_def Let_def split_beta
        split: if_splits option.splits sum.splits)
  have fmt: "stream_format new1 = fmt"
    using transcribe_format [OF tr] by (simp add: journaler_create_def)
  have sv: "save_result st = 0"
    using assms by (auto simp: reformat_journal_def Let_def split_beta jp_save_def
        split: if_splits)
  from assms tr fmt sv
  show "status res = 0"
    and "jp_final res = \<lparr>jp_front = ?new, jp_back = 0\<rparr>"
    and "pointer (store res) = Some (jp_final res)"
    and "\<exists>nj. active res = Some (?new, nj) \<and> stream_format nj = fmt \<and> readonly nj"
    and "io_log (store res) = io_log st @
           [SavePointer \<lparr>jp_front = jp_front jp, jp_back = ?new\<rparr>,
            WriteHead ?new, Flush ?new,
            SavePointer \<lparr>jp_front = ?new, jp_back = jp_front jp\<rparr>,
            Erase (jp_front jp),
            SavePointer \<lparr>jp_front = ?new, jp_back = 0\<rparr>]"
    by (auto simp: reformat_journal_def Let_def split_beta jp_save_def journaler_erase_def
        store_journal_def other_ino_def
        split: if_splits option.splits)
qed

lemma map_of_filter_other:
  "k \<noteq> k' \<Longrightarrow> map_of (filter (\<lambda>kv. fst kv \<noteq> k') xs) k = map_of xs k"
  by (induction xs) auto

lemma open_front_log:
  assumes "open_front nodeid fmt jp st = Some (Inr res)"
  shows "\<exists>ops. io_log (store res) = io_log st @ Recover (jp_front jp) # ops"
proof -
  obtain rr fj script st1 where
    r: "journaler_recover (jp_front jp) st = ((rr, fj, script), st1)"
    by (metis prod.exhaust)
  then have l1: "io_log st1 = io_log st @ [Recover (jp_front jp)]"
    by (auto simp: journaler_recover_def)
  show ?thesis
  proof (cases "rr \<noteq> 0 \<or> stream_format fj \<ge> fmt")
    case True
    with assms r l1 show ?thesis
      by (auto simp: open_front_def split: if_splits)
  next
    case False
    with assms r have "reformat_journal nodeid fmt jp fj script st1 = Some (Inr res)"
      by (auto simp: open_front_def split: if_splits)
    from reformat_journal_success(5) [OF this] l1 show ?thesis by simp
  qed
qed

subsection \<open>Facts about the invariant of the event counter\<close>

lemma word_advance:
  fixes w :: u64
  assumes "unat w + n < 2 ^ 64" and "0 < n"
  shows "w < w + of_nat n"
proof -
  have n: "unat (of_nat n :: u64) = n"
    using assms(1) by (simp add: unat_of_nat)
  have "unat (w + of_nat n) = unat w + unat (of_nat n :: u64)"
    using assms(1) n by (simp add: unat_add_lem [THEN iffD1])
  with n assms(2) show ?thesis
    by (simp add: word_less_nat_alt)
qed

lemma unat_advance:
  fixes w :: u64
  assumes "unat w + n < 2 ^ 64"
  shows "unat (w + of_nat n) = unat w + n"
proof -
  have n: "unat (of_nat n :: u64) = n"
    using assms(1) by (simp add: unat_of_nat)
  have "unat (w + of_nat n) = unat w + unat (of_nat n :: u64)"
    using assms(1) n by (simp add: unat_add_lem [THEN iffD1])
  with n show ?thesis by simp
qed

lemma keys_behind_advance:
  assumes "keys_behind pos segs" and "pos < pos'"
  shows "\<forall>kv \<in> set segs. fst kv < pos'" and "keys_behind pos' segs"
  using assms by (auto simp: keys_behind_def)

lemma sum_update_last:
  fixes f :: "'a \<Rightarrow> int"
  assumes "segs \<noteq> []"
  shows "sum_list (map f (butlast segs @ [x])) = sum_list (map f segs) - f (last segs) + f x"
proof -
  have "sum_list (map f segs) = sum_list (map f (butlast segs @ [last segs]))"
    using assms by simp
  then show ?thesis by simp
qed

lemma submit_entry_append_segments:
  assumes "submit_entry_append le c s = Inr s1"
  shows "segments s \<noteq> []"
    and "segments s1 = butlast (segments s) @
           [(fst (last (segments s)),
             (snd (last (segments s)))
               \<lparr>seg_num_events := seg_num_events (snd (last (segments s))) + 1,
                seg_end := write_pos (journaler s1)\<rparr>)]"
    and "num_events s1 = num_events s + 1"
proof -
  from assms show ne: "segments s \<noteq> []"
    by (auto simp: submit_entry_append_def split: if_splits)
  from assms ne show "segments s1 = butlast (segments s) @
           [(fst (last (segments s)),
             (snd (last (segments s)))
               \<lparr>seg_num_events := seg_num_events (snd (last (segments s))) + 1,
                seg_end := write_pos (journaler s1)\<rparr>)]"
    by (cases c)
       (auto simp: submit_entry_append_def Let_def split_beta ceph_clock_now_fields
          wait_for_flush_def split: if_splits)
  from assms ne show "num_events s1 = num_events s + 1"
    by (auto simp: submit_entry_append_def Let_def split_beta ceph_clock_now_fields
        split: if_splits)
qed

lemma log_inv_update_last:
  assumes inv: "sorted_wrt (<) (map fst segs)" "\<forall>kv \<in> set segs. offset (snd kv) = fst kv"
    and ne: "segs \<noteq> []"
    and x: "fst x = fst (last segs)" "offset (snd x) = offset (snd (last segs))"
  shows "sorted_wrt (<) (map fst (butlast segs @ [x]))"
    and "\<forall>kv \<in> set (butlast segs @ [x]). offset (snd kv) = fst kv"
    and "set (map fst (butlast segs @ [x])) = set (map fst segs)"
proof -
  have m: "map fst (butlast segs @ [x]) = map fst segs"
  proof -
    have "map fst (butlast segs @ [x]) = map fst (butlast segs @ [last segs])"
      using x(1) by simp
    also have "butlast segs @ [last segs] = segs" using ne by simp
    finally show ?thesis .
  qed
  show "sorted_wrt (<) (map fst (butlast segs @ [x]))"
    unfolding m by (rule inv(1))
  show "set (map fst (butlast segs @ [x])) = set (map fst segs)"
    unfolding m ..
  have "last segs \<in> set segs" using ne by simp
  with inv(2) x have "offset (snd x) = fst x" by simp
  moreover have "\<forall>kv \<in> set (butlast segs). offset (snd kv) = fst kv"
    using inv(2) by (auto dest: in_set_butlastD)
  ultimately show "\<forall>kv \<in> set (butlast segs @ [x]). offset (snd kv) = fst kv"
    by simp
qed

lemma submit_entry_append_inv:
  assumes app: "submit_entry_append le c s = Inr s1"
    and inv: "log_inv (write_pos (journaler s)) s"
    and fit: "unat (write_pos (journaler s)) + 8 + ev_size le < 2 ^ 64"
  shows "log_inv (write_pos (journaler s1)) s1"
    and "unat (write_pos (journaler s1)) = unat (write_pos (journaler s)) + 8 + ev_size le"
proof -
  note sg = submit_entry_append_segments [OF app]
  note fr = submit_entry_append_frame [OF app]
  let ?x = "(fst (last (segments s)),
             (snd (last (segments s)))
               \<lparr>seg_num_events := seg_num_events (snd (last (segments s))) + 1,
                seg_end := write_pos (journaler s1)\<rparr>)"
  from inv have i: "sorted_wrt (<) (map fst (segments s))"
    "\<forall>kv \<in> set (segments s). offset (snd kv) = fst kv"
    "keys_behind (write_pos (journaler s)) (segments s)" "events_inv s"
    by (simp_all add: log_inv_def)
  have x: "fst ?x = fst (last (segments s))"
    "offset (snd ?x) = offset (snd (last (segments s)))" by simp_all
  note ul = log_inv_update_last [OF i(1,2) sg(1) x]
  have adv: "write_pos (journaler s) < write_pos (journaler s1)"
    unfolding fr(1) using word_advance [of "write_pos (journaler s)" "8 + ev_size le"] fit
    by simp
  have below: "\<forall>kv \<in> set (segments s). fst kv < write_pos (journaler s1)"
    using keys_behind_advance(1) [OF i(3) adv] .
  have "\<forall>k \<in> set (map fst (butlast (segments s) @ [?x])). k < write_pos (journaler s1)"
    unfolding ul(3) using below by (simp del: map_append)
  then have "\<forall>kv \<in> set (butlast (segments s) @ [?x]). fst kv < write_pos (journaler s1)"
    by (simp del: butlast.simps)
  then have kb: "keys_behind (write_pos (journaler s1)) (butlast (segments s) @ [?x])"
    unfolding keys_behind_def by blast
  have "num_events s1 = sum_list (map (\<lambda>kv. seg_num_events (snd kv)) (segments s)) + 1"
    using i(4) sg(3) by (simp add: events_inv_def)
  also have "\<dots> = sum_list (map (\<lambda>kv. seg_num_events (snd kv)) (butlast (segments s) @ [?x]))"
    unfolding sum_update_last [OF sg(1), of "\<lambda>kv. seg_num_events (snd kv)" ?x] by simp
  finally have ev: "events_inv s1"
    unfolding events_inv_def using sg(2) by (simp only:)
  have seg: "segments s1 = butlast (segments s) @ [?x]" by (rule sg(2))
  show "log_inv (write_pos (journaler s1)) s1"
    unfolding log_inv_def seg using ul(1,2) kb ev [unfolded events_inv_def seg]
    by (simp only: events_inv_def seg simp_thms)
  show "unat (write_pos (journaler s1)) = unat (write_pos (journaler s)) + 8 + ev_size le"
    unfolding fr(1) using unat_advance [of "write_pos (journaler s)" "8 + ev_size le"] fit
    by simp
qed

lemma log_inv_cong:
  "segments s1 = segments s \<Longrightarrow> num_events s1 = num_events s \<Longrightarrow>
   log_inv pos s1 = log_inv pos s"
  by (simp add: log_inv_def events_inv_def)

lemma set_map_assign: "set (map_assign k v m) \<subseteq> insert (k, v) (set m)"
  by (induction k v m rule: map_assign.induct) auto

lemma sum_map_assign:
  fixes f :: "u64 \<times> 'v \<Rightarrow> int"
  assumes "\<forall>kv \<in> set m. fst kv = k \<longrightarrow> f kv = 0" and "f (k, v) = 0"
  shows "sum_list (map f (map_assign k v m)) = sum_list (map f m)"
  using assms by (induction k v m rule: map_assign.induct) auto

lemma prepare_new_segment_inv:
  assumes "log_inv (write_pos (journaler s)) s"
  shows "log_inv (write_pos (journaler s)) (prepare_new_segment s)"
proof -
  let ?wp = "write_pos (journaler s)"
  let ?new = "new_LogSegment (next_seg s) ?wp"
  let ?segs = "map_assign ?wp ?new (segments s)"
  from assms have i: "sorted_wrt (<) (map fst (segments s))"
    "\<forall>kv \<in> set (segments s). offset (snd kv) = fst kv"
    "keys_behind ?wp (segments s)" "events_inv s"
    by (simp_all add: log_inv_def)
  have seg: "segments (prepare_new_segment s) = ?segs"
    and ne: "num_events (prepare_new_segment s) = num_events s"
    by (simp_all add: prepare_new_segment_def Let_def)
  have a: "sorted_wrt (<) (map fst ?segs)" using sorted_map_assign [OF i(1)] .
  have b: "\<forall>kv \<in> set ?segs. offset (snd kv) = fst kv"
    using set_map_assign [of ?wp ?new "segments s"] i(2)
    by (auto simp: new_LogSegment_def)
  have c: "keys_behind ?wp ?segs"
    using set_map_assign [of ?wp ?new "segments s"] i(3)
    unfolding keys_behind_def by (auto simp: new_LogSegment_def)
  have "\<forall>kv \<in> set (segments s). fst kv = ?wp \<longrightarrow> seg_num_events (snd kv) = 0"
    using i(3) unfolding keys_behind_def by auto
  from sum_map_assign [of "segments s" ?wp "\<lambda>kv. seg_num_events (snd kv)" ?new, OF this]
  have "sum_list (map (\<lambda>kv. seg_num_events (snd kv)) ?segs)
        = sum_list (map (\<lambda>kv. seg_num_events (snd kv)) (segments s))"
    by (simp add: new_LogSegment_def)
  with i(4) have d: "events_inv (prepare_new_segment s)"
    unfolding events_inv_def seg ne by simp
  show ?thesis
    unfolding log_inv_def seg using a b c d [unfolded events_inv_def seg]
    by (simp only: events_inv_def seg simp_thms)
qed

lemma prepare_new_segment_journaler:
  "journaler (prepare_new_segment s) = journaler s"
  "conf (prepare_new_segment s) = conf s"
  "subtree_map_size (mds (prepare_new_segment s)) = subtree_map_size (mds s)"
  by (simp_all add: prepare_new_segment_def Let_def)

lemma submit_entry_disabled:
  assumes "\<not> mds_log (conf s)" and "submit_entry le c s = Inr s'"
  shows "segments s' = segments s" and "num_events s' = num_events s"
    and "journaler s' = journaler s"
  using assms
  by (auto simp: submit_entry.simps complete_def Let_def split: if_splits option.splits)

lemma submit_suppressed_inv:
  assumes sub: "submit_entry le c s = Inr s'" and sup: "rotation_suppressed le s"
    and inv: "log_inv (write_pos (journaler s)) s"
    and fit: "unat (write_pos (journaler s)) + 8 + ev_size le < 2 ^ 64"
  shows "log_inv (write_pos (journaler s')) s'"
proof (cases "mds_log (conf s)")
  case False
  from submit_entry_disabled [OF False sub] inv show ?thesis
    using log_inv_cong [of s' s] by simp
next
  case True
  let ?s0 = "s\<lparr>cur_event := None\<rparr>"
  have app: "submit_entry_append le c ?s0 = Inr s'"
    using submit_entry_suppressed [OF True sup sub] .
  have "log_inv (write_pos (journaler ?s0)) ?s0"
    using inv log_inv_cong [of ?s0 s] by simp
  from submit_entry_append_inv(1) [OF app this] fit show ?thesis by simp
qed

lemma start_new_segment_inv:
  assumes st: "start_new_segment onsync s = Inr s'"
    and inv: "log_inv (write_pos (journaler s)) s"
    and fit: "unat (write_pos (journaler s)) + 8 + subtree_map_size (mds s) < 2 ^ 64"
  shows "log_inv (write_pos (journaler s')) s'"
    and "unat (write_pos (journaler s')) \<le> unat (write_pos (journaler s)) + 8 + subtree_map_size (mds s)"
proof -
  let ?p = "prepare_new_segment s"
  from st obtain s1 where j: "journal_segment_subtree_map ?p = Inr s1"
    and s': "s' = (case onsync of None \<Rightarrow> s1 | Some x \<Rightarrow> flush (wait_for_safe x s1))"
    by (auto simp: start_new_segment.simps split: sum.splits option.splits)
  from j obtain le s2 where cr: "create_subtree_map ?p = Inr (le, s2)"
    and sub: "submit_entry le None s2 = Inr s1"
    by (auto simp: journal_segment_subtree_map.simps split: sum.splits)
  note fr = create_subtree_map_frame [OF cr]
  have f2: "segments s2 = segments ?p" "num_events s2 = num_events ?p"
    "journaler s2 = journaler s" "conf s2 = conf s"
    by (simp_all add: fr(1) prepare_new_segment_journaler)
  have size: "ev_size le = subtree_map_size (mds s)"
    using fr(3) by (simp add: prepare_new_segment_journaler)
  have inv2: "log_inv (write_pos (journaler s2)) s2"
    using prepare_new_segment_inv [OF inv] log_inv_cong [OF f2(1,2)] f2(3) by simp
  have sup: "rotation_suppressed le s2"
    by (simp add: rotation_suppressed_def fr(2))
  have fit2: "unat (write_pos (journaler s2)) + 8 + ev_size le < 2 ^ 64"
    using fit f2(3) size by simp
  have inv1: "log_inv (write_pos (journaler s1)) s1"
    using submit_suppressed_inv [OF sub sup inv2 fit2] .
  have wp1: "unat (write_pos (journaler s1)) \<le> unat (write_pos (journaler s)) + 8 + subtree_map_size (mds s)"
  proof (cases "mds_log (conf s2)")
    case False
    from submit_entry_disabled(3) [OF False sub] f2(3) show ?thesis by simp
  next
    case True
    have "log_inv (write_pos (journaler (s2\<lparr>cur_event := None\<rparr>))) (s2\<lparr>cur_event := None\<rparr>)"
      using inv2 log_inv_cong [of "s2\<lparr>cur_event := None\<rparr>" s2] by simp
    from submit_entry_append_inv(2) [OF submit_entry_suppressed [OF True sup sub] this]
      fit2 f2(3) size
    show ?thesis by simp
  qed
  have f': "segments s' = segments s1" "num_events s' = num_events s1"
    "write_pos (journaler s') = write_pos (journaler s1)"
    unfolding s'
    by (auto simp: flush_def wait_for_safe_def complete_def wait_for_flush_def
        journaler_flush_def split: option.splits)
  show "log_inv (write_pos (journaler s')) s'"
    using inv1 log_inv_cong [OF f'(1,2)] f'(3) by simp
  show "unat (write_pos (journaler s')) \<le> unat (write_pos (journaler s)) + 8 + subtree_map_size (mds s)"
    using wp1 f'(3) by simp
qed

lemma submit_entry_unfold:
  assumes "mds_log (conf s)" and "submit_entry le c s = Inr s'"
  shows "\<exists>s1. submit_entry_append le c (s\<lparr>cur_event := None\<rparr>) = Inr s1 \<and>
           (if rotation_suppressed le s then s' = s1
            else if write_pos (journaler s1) div layout_period (journaler s1)
                      \<noteq> fst (last (segments s1)) div layout_period (journaler s1)
            then start_new_segment None s1 = Inr s'
            else if mds_debug_subtrees (conf s) \<and> ev_type le \<noteq> EVENT_SUBTREEMAP_TEST
            then (\<exists>sle s2. create_subtree_map s1 = Inr (sle, s2) \<and>
                    submit_entry (sle\<lparr>ev_type := EVENT_SUBTREEMAP_TEST\<rparr>) None s2 = Inr s')
            else s' = s1)"
proof -
  from assms obtain s1 where
    app: "submit_entry_append le c (s\<lparr>cur_event := None\<rparr>) = Inr s1"
    by (auto simp: submit_entry.simps [of le c s] split: if_splits sum.splits)
  note fr = submit_entry_append_frame [OF app]
  have m: "mds s1 = mds s" "conf s1 = conf s" using fr(5,6) by simp_all
  have ne: "segments s1 \<noteq> []" using fr(3) .
  from assms app m ne show ?thesis
    by (auto simp: submit_entry.simps [of le c s] rotation_suppressed_def
        get_last_segment_offset_def Let_def split: if_splits sum.splits)
qed

lemma submit_plain_inv:
  assumes sub: "submit_entry le c s = Inr s'"
    and plain: "\<not> mds_debug_subtrees (conf s) \<or> ev_type le = EVENT_SUBTREEMAP_TEST"
    and inv: "log_inv (write_pos (journaler s)) s"
    and fit: "unat (write_pos (journaler s)) + ev_size le + subtree_map_size (mds s) + 16 < 2 ^ 64"
  shows "log_inv (write_pos (journaler s')) s'"
proof (cases "mds_log (conf s)")
  case False
  from submit_entry_disabled [OF False sub] inv show ?thesis
    using log_inv_cong [of s' s] by simp
next
  case True
  let ?s0 = "s\<lparr>cur_event := None\<rparr>"
  from submit_entry_unfold [OF True sub] obtain s1 where
    app: "submit_entry_append le c ?s0 = Inr s1"
    and rest: "if rotation_suppressed le s then s' = s1
            else if write_pos (journaler s1) div layout_period (journaler s1)
                      \<noteq> fst (last (segments s1)) div layout_period (journaler s1)
            then start_new_segment None s1 = Inr s'
            else if mds_debug_subtrees (conf s) \<and> ev_type le \<noteq> EVENT_SUBTREEMAP_TEST
            then (\<exists>sle s2. create_subtree_map s1 = Inr (sle, s2) \<and>
                    submit_entry (sle\<lparr>ev_type := EVENT_SUBTREEMAP_TEST\<rparr>) None s2 = Inr s')
            else s' = s1"
    by blast
  have inv0: "log_inv (write_pos (journaler ?s0)) ?s0"
    using inv log_inv_cong [of ?s0 s] by simp
  have fit0: "unat (write_pos (journaler ?s0)) + 8 + ev_size le < 2 ^ 64"
    using fit by simp
  note a = submit_entry_append_inv [OF app inv0 fit0]
  have m: "mds s1 = mds s" using submit_entry_append_frame(5) [OF app] by simp
  from rest plain consider "s' = s1" | "start_new_segment None s1 = Inr s'"
    by (auto split: if_splits)
  then show ?thesis
  proof cases
    case 1
    with a(1) show ?thesis by simp
  next
    case 2
    have "unat (write_pos (journaler s1)) + 8 + subtree_map_size (mds s1) < 2 ^ 64"
      using a(2) fit m by simp
    from start_new_segment_inv(1) [OF 2 a(1) this] show ?thesis .
  qed
qed

lemma submit_entry_inv:
  assumes sub: "submit_entry le c s = Inr s'"
    and inv: "log_inv (write_pos (journaler s)) s"
    and fit: "unat (write_pos (journaler s)) + ev_size le + 2 * subtree_map_size (mds s) + 24
              < 2 ^ 64"
  shows "log_inv (write_pos (journaler s')) s'"
proof (cases "mds_log (conf s) \<and> mds_debug_subtrees (conf s) \<and>
              ev_type le \<noteq> EVENT_SUBTREEMAP_TEST")
  case False
  show ?thesis
  proof (cases "mds_log (conf s)")
    case nolog: False
    from submit_entry_disabled [OF nolog sub] inv show ?thesis
      using log_inv_cong [of s' s] by simp
  next
    case True
    with False have "\<not> mds_debug_subtrees (conf s) \<or> ev_type le = EVENT_SUBTREEMAP_TEST"
      by simp
    from submit_plain_inv [OF sub this inv] fit show ?thesis by simp
  qed
next
  case True
  then have en: "mds_log (conf s)" by simp
  let ?s0 = "s\<lparr>cur_event := None\<rparr>"
  from submit_entry_unfold [OF en sub] obtain s1 where
    app: "submit_entry_append le c ?s0 = Inr s1"
    and rest: "if rotation_suppressed le s then s' = s1
            else if write_pos (journaler s1) div layout_period (journaler s1)
                      \<noteq> fst (last (segments s1)) div layout_period (journaler s1)
            then start_new_segment None s1 = Inr s'
            else if mds_debug_subtrees (conf s) \<and> ev_type le \<noteq> EVENT_SUBTREEMAP_TEST
            then (\<exists>sle s2. create_subtree_map s1 = Inr (sle, s2) \<and>
                    submit_entry (sle\<lparr>ev_type := EVENT_SUBTREEMAP_TEST\<rparr>) None s2 = Inr s')
            else s' = s1"
    by blast
  have inv0: "log_inv (write_pos (journaler ?s0)) ?s0"
    using inv log_inv_cong [of ?s0 s] by simp
  have fit0: "unat (write_pos (journaler ?s0)) + 8 + ev_size le < 2 ^ 64"
    using fit by simp
  note a = submit_entry_append_inv [OF app inv0 fit0]
  have m: "mds s1 = mds s" using submit_entry_append_frame(5) [OF app] by simp
  from rest True consider "s' = s1" | "start_new_segment None s1 = Inr s'"
    | sle s2 where "create_subtree_map s1 = Inr (sle, s2)"
        "submit_entry (sle\<lparr>ev_type := EVENT_SUBTREEMAP_TEST\<rparr>) None s2 = Inr s'"
    by (auto split: if_splits)
  then show ?thesis
  proof cases
    case 1
    with a(1) show ?thesis by simp
  next
    case 2
    have "unat (write_pos (journaler s1)) + 8 + subtree_map_size (mds s1) < 2 ^ 64"
      using a(2) fit m by simp
    from start_new_segment_inv(1) [OF 2 a(1) this] show ?thesis .
  next
    case 3
    note fr = create_subtree_map_frame [OF 3(1)]
    have f2: "segments s2 = segments s1" "num_events s2 = num_events s1"
      "journaler s2 = journaler s1" "subtree_map_size (mds s2) = subtree_map_size (mds s)"
      using m by (simp_all add: fr(1))
    have inv2: "log_inv (write_pos (journaler s2)) s2"
      using a(1) log_inv_cong [OF f2(1,2)] f2(3) by simp
    have t: "\<not> mds_debug_subtrees (conf s2) \<or>
             ev_type (sle\<lparr>ev_type := EVENT_SUBTREEMAP_TEST\<rparr>) = EVENT_SUBTREEMAP_TEST"
      by simp
    have "unat (write_pos (journaler s2)) + ev_size (sle\<lparr>ev_type := EVENT_SUBTREEMAP_TEST\<rparr>)
            + subtree_map_size (mds s2) + 16 < 2 ^ 64"
      using a(2) fit f2(3,4) fr(3) m by simp
    from submit_plain_inv [OF 3(2) t inv2 this] show ?thesis .
  qed
qed

lemma trim_expired_loop_inv:
  assumes "log_inv pos s"
  shows "log_inv pos (snd (trim_expired_loop t s)) \<and>
         write_pos (journaler (snd (trim_expired_loop t s))) = write_pos (journaler s)"
  using assms
proof (induction t s rule: trim_expired_loop.induct)
  case (1 trimmed s)
  show ?case
  proof (cases "segments s")
    case Nil
    with "1.prems" show ?thesis by (simp add: trim_expired_loop.simps [of trimmed s])
  next
    case (Cons kv rest)
    obtain k ls where kv: "kv = (k, ls)" by (cases kv)
    show ?thesis
    proof (cases "set_count (seg_id ls) (expired_segments s)")
      case False
      with Cons kv "1.prems" show ?thesis by (simp add: trim_expired_loop.simps [of trimmed s])
    next
      case True
      let ?s1 = "s\<lparr>expired_events := expired_events s - seg_num_events ls,
                 expired_segments := set_erase (seg_id ls) (expired_segments s),
                 num_events := num_events s - seg_num_events ls,
                 journaler :=
                   (if expire_pos (journaler s) < offset ls
                    then (journaler s)\<lparr>expire_pos := offset ls\<rparr>
                    else journaler s),
                 logger := (logger s)\<lparr>l_mdl_expos := uint (offset ls),
                                       l_mdl_segtrm := l_mdl_segtrm (logger s) + 1,
                                       l_mdl_evtrm := l_mdl_evtrm (logger s) + seg_num_events ls\<rparr>,
                 segments := map_erase (offset ls) (segments s)\<rparr>"
      from "1.prems" Cons kv have i: "sorted_wrt (<) (k # map fst rest)"
        "offset ls = k" "\<forall>kv \<in> set rest. offset (snd kv) = fst kv"
        "keys_behind pos rest"
        "num_events s = seg_num_events ls + sum_list (map (\<lambda>kv. seg_num_events (snd kv)) rest)"
        by (simp_all add: log_inv_def events_inv_def keys_behind_def)
      have er: "map_erase (offset ls) (segments s) = rest"
        using i(1,2) Cons kv by (auto simp: map_erase_def filter_id_conv)
      have er': "map_erase k (segments s) = rest" using er i(2) by simp
      have inv1: "log_inv pos ?s1"
        using i by (simp add: log_inv_def events_inv_def er')
      have r: "trim_expired_loop trimmed s = trim_expired_loop True ?s1"
        using Cons kv True by (simp add: trim_expired_loop.simps [of trimmed s])
      from "1.IH" [OF Cons kv [symmetric] _ inv1] True show ?thesis
        unfolding r by simp
    qed
  qed
qed

lemma trim_inv:
  assumes "trim m s = Inr s'" and "log_inv pos s"
  shows "log_inv pos s'" and "write_pos (journaler s') = write_pos (journaler s)"
proof -
  obtain now s1 where c: "ceph_clock_now s = (now, s1)" by (cases "ceph_clock_now s")
  then have s1: "s1 = snd (ceph_clock_now s)" by simp
  have f1: "segments s1 = segments s" "num_events s1 = num_events s"
    "journaler s1 = journaler s"
    unfolding s1 by (simp_all add: ceph_clock_now_fields)
  have "log_inv pos s' \<and> write_pos (journaler s') = write_pos (journaler s)"
  proof (cases "segments s = []")
    case True
    with assms show ?thesis by (simp add: trim_def)
  next
    case False
    with assms(1) c obtain s2 where
      loop: "trim_loop (if m \<ge> 0 then m else mds_log_max_events (conf s))
               (mds_log_max_segments (conf s)) (now + two_seconds) (segments s1) s1 = Inr s2"
      and s': "s' = trim_expired_segments s2"
      by (auto simp: trim_def Let_def split: sum.splits)
    from trim_loop_frame [OF loop, of 0] f1
    have f2: "segments s2 = segments s" "num_events s2 = num_events s"
      "journaler s2 = journaler s" by simp_all
    have inv2: "log_inv pos s2"
      using assms(2) log_inv_cong [OF f2(1,2)] by simp
    have "segments s' = segments (snd (trim_expired_loop False s2))"
      "num_events s' = num_events (snd (trim_expired_loop False s2))"
      "write_pos (journaler s') = write_pos (journaler (snd (trim_expired_loop False s2)))"
      unfolding s' trim_expired_segments_def
      by (simp_all add: split_beta Let_def journaler_write_head_def)
    with trim_expired_loop_inv [OF inv2, of False] log_inv_cong [of s' "snd (trim_expired_loop False s2)"] f2(3)
    show ?thesis by simp
  qed
  then show "log_inv pos s'" and "write_pos (journaler s') = write_pos (journaler s)"
    by simp_all
qed

lemma insert_segment_inv:
  assumes inv: "log_inv pos s"
    and seg: "segments s1 = map_assign pos (new_LogSegment a pos) (segments s)"
    and ne: "num_events s1 = num_events s"
  shows "log_inv pos s1"
proof -
  let ?new = "new_LogSegment a pos"
  let ?segs = "map_assign pos ?new (segments s)"
  from inv have i: "sorted_wrt (<) (map fst (segments s))"
    "\<forall>kv \<in> set (segments s). offset (snd kv) = fst kv"
    "keys_behind pos (segments s)" "events_inv s"
    by (simp_all add: log_inv_def)
  have a: "sorted_wrt (<) (map fst ?segs)" using sorted_map_assign [OF i(1)] .
  have b: "\<forall>kv \<in> set ?segs. offset (snd kv) = fst kv"
    using set_map_assign [of pos ?new "segments s"] i(2)
    by (auto simp: new_LogSegment_def)
  have c: "keys_behind pos ?segs"
    using set_map_assign [of pos ?new "segments s"] i(3)
    unfolding keys_behind_def by (auto simp: new_LogSegment_def)
  have "\<forall>kv \<in> set (segments s). fst kv = pos \<longrightarrow> seg_num_events (snd kv) = 0"
    using i(3) unfolding keys_behind_def by auto
  from sum_map_assign [of "segments s" pos "\<lambda>kv. seg_num_events (snd kv)" ?new, OF this]
  have "sum_list (map (\<lambda>kv. seg_num_events (snd kv)) ?segs)
        = sum_list (map (\<lambda>kv. seg_num_events (snd kv)) (segments s))"
    by (simp add: new_LogSegment_def)
  with i(4) have d: "num_events s1 = sum_list (map (\<lambda>kv. seg_num_events (snd kv)) ?segs)"
    unfolding events_inv_def ne by simp
  show ?thesis
    unfolding log_inv_def events_inv_def seg using a b c d by (intro conjI)
qed

lemma attach_event_inv:
  assumes inv: "log_inv pos s" and adv: "pos < pos'" and nonempty: "segments s \<noteq> []"
    and seg: "segments s1 = butlast (segments s) @
           [(fst (last (segments s)),
             (snd (last (segments s)))
               \<lparr>seg_num_events := seg_num_events (snd (last (segments s))) + 1,
                seg_end := e\<rparr>)]"
    and ne: "num_events s1 = num_events s + 1"
  shows "log_inv pos' s1"
proof -
  let ?x = "(fst (last (segments s)),
             (snd (last (segments s)))
               \<lparr>seg_num_events := seg_num_events (snd (last (segments s))) + 1,
                seg_end := e\<rparr>)"
  from inv have i: "sorted_wrt (<) (map fst (segments s))"
    "\<forall>kv \<in> set (segments s). offset (snd kv) = fst kv"
    "keys_behind pos (segments s)" "events_inv s"
    by (simp_all add: log_inv_def)
  have x: "fst ?x = fst (last (segments s))"
    "offset (snd ?x) = offset (snd (last (segments s)))" by simp_all
  note ul = log_inv_update_last [OF i(1,2) nonempty x]
  have below: "\<forall>kv \<in> set (segments s). fst kv < pos'"
    using keys_behind_advance(1) [OF i(3) adv] .
  have "\<forall>k \<in> set (map fst (butlast (segments s) @ [?x])). k < pos'"
    unfolding ul(3) using below by (simp del: map_append)
  then have "\<forall>kv \<in> set (butlast (segments s) @ [?x]). fst kv < pos'"
    by (simp del: butlast.simps)
  then have kb: "keys_behind pos' (butlast (segments s) @ [?x])"
    unfolding keys_behind_def by blast
  have "num_events s1 = sum_list (map (\<lambda>kv. seg_num_events (snd kv)) (segments s)) + 1"
    using i(4) ne by (simp add: events_inv_def)
  also have "\<dots> = sum_list (map (\<lambda>kv. seg_num_events (snd kv)) (butlast (segments s) @ [?x]))"
    unfolding sum_update_last [OF nonempty, of "\<lambda>kv. seg_num_events (snd kv)" ?x] by simp
  finally have ev: "num_events s1 =
      sum_list (map (\<lambda>kv. seg_num_events (snd kv)) (butlast (segments s) @ [?x]))" .
  show ?thesis
    unfolding log_inv_def events_inv_def seg using ul(1,2) kb ev by (intro conjI)
qed

lemma log_inv_advance:
  assumes "log_inv pos s" and "pos < pos'"
  shows "log_inv pos' s"
  using assms keys_behind_advance(2) [of pos "segments s" pos']
  by (simp add: log_inv_def)

lemma replay_event_inv:
  assumes inv: "log_inv pos s" and adv: "pos < read_pos (journaler s)"
  shows "log_inv (read_pos (journaler s)) (replay_event pos le s)"
proof (cases "ev_type le = EVENT_SUBTREEMAP \<or> ev_type le = EVENT_RESETJOURNAL")
  case True
  let ?segs = "map_assign pos (new_LogSegment (next_seg s) pos) (segments s)"
  let ?s1 = "s\<lparr>segments := ?segs\<rparr>"
  have inv1: "log_inv pos ?s1"
    by (rule insert_segment_inv [OF inv]) simp_all
  have ne: "segments ?s1 \<noteq> []" by (simp add: map_assign_not_Nil)
  have "segments (replay_event pos le s) = butlast (segments ?s1) @
           [(fst (last (segments ?s1)),
             (snd (last (segments ?s1)))
               \<lparr>seg_num_events := seg_num_events (snd (last (segments ?s1))) + 1,
                seg_end := read_pos (journaler s)\<rparr>)]"
    "num_events (replay_event pos le s) = num_events ?s1 + 1"
    using True by (auto simp: replay_event_def Let_def split_beta map_assign_not_Nil)
  from attach_event_inv [OF inv1 adv ne this] show ?thesis .
next
  case False
  show ?thesis
  proof (cases "segments s = []")
    case True
    with False have "segments (replay_event pos le s) = segments s"
      "num_events (replay_event pos le s) = num_events s"
      by (simp_all add: replay_event_def Let_def split_beta)
    from log_inv_cong [OF this] log_inv_advance [OF inv adv] show ?thesis by simp
  next
    case ne: False
    with False have "segments (replay_event pos le s) = butlast (segments s) @
           [(fst (last (segments s)),
             (snd (last (segments s)))
               \<lparr>seg_num_events := seg_num_events (snd (last (segments s))) + 1,
                seg_end := read_pos (journaler s)\<rparr>)]"
      "num_events (replay_event pos le s) = num_events s + 1"
      by (simp_all add: replay_event_def Let_def split_beta)
    from attach_event_inv [OF inv adv ne this] show ?thesis .
  qed
qed

lemma wait_readable_frame:
  "wait_readable script j = Some (script1, j1) \<Longrightarrow>
     read_pos j1 = read_pos j \<and> prefetched j1 @ on_disk j1 = prefetched j @ on_disk j"
proof (induction script arbitrary: j)
  case Nil
  then show ?case by (simp split: if_splits)
next
  case (Cons f fs)
  show ?case
  proof (cases "must_wait j")
    case False
    with Cons.prems show ?thesis by simp
  next
    case True
    with Cons.prems have "wait_readable fs (apply_fetch f j) = Some (script1, j1)" by simp
    from Cons.IH [OF this] show ?thesis
      by (cases f) (auto simp: apply_fetch_def)
  qed
qed

lemma replay_error_nonzero:
  "replay_error s = Inr (r, s') \<Longrightarrow> j_error (journaler s) \<noteq> 0 \<Longrightarrow> r \<noteq> 0"
  by (auto simp: replay_error_def Let_def split_beta EAGAIN_def EINVAL_def split: if_splits)

lemma try_read_entry_Some:
  assumes "try_read_entry j = (Some bl, j2)"
  shows "prefetched j = Entry bl # prefetched j2" and "on_disk j2 = on_disk j"
    and "read_pos j2 = read_pos j + of_nat (4 + bl_length bl)"
  using assms
  by (auto simp: try_read_entry_def split: list.splits journal_entry.splits)

lemma try_read_entry_None:
  assumes "try_read_entry j = (None, j2)"
  shows "prefetched j2 = prefetched j" and "on_disk j2 = on_disk j"
    and "read_pos j2 = read_pos j"
  using assms
  by (auto simp: try_read_entry_def split: list.splits journal_entry.splits)

lemma replay_error_cases:
  assumes "replay_error s = Inr (r, s')"
  shows "s' = s \<or>
         (j_error (journaler s) = - EINVAL \<and> expire_pos (journaler s) \<le> read_pos (journaler s) \<and>
          s' = reread_and_trim s)"
  using assms
  by (auto simp: replay_error_def reread_and_trim_def reread_head_def Let_def split_beta
      split: if_splits)

lemma replay_loop_inv:
  assumes "replay_loop script s = Some (Inr (r, s'))"
    and "log_inv (read_pos (journaler s)) s" and "fits (journaler s)"
  shows "log_inv (read_pos (journaler s')) s' \<or>
         (r \<noteq> 0 \<and>
          (\<exists>s1. log_inv (read_pos (journaler s1)) s1 \<and> j_error (journaler s1) = - EINVAL \<and>
                expire_pos (journaler s1) \<le> read_pos (journaler s1) \<and>
                s' = reread_and_trim s1))"
  using assms
proof (induction script s rule: replay_loop.induct)
  case (1 script s)
  from "1.prems"(1) obtain script1 j1 where
    w: "wait_readable script (journaler s) = Some (script1, j1)"
    by (auto simp: replay_loop.simps [of script s] split: option.splits)
  note wf = wait_readable_frame [OF w]
  let ?s1 = "s\<lparr>journaler := j1\<rparr>"
  have inv1: "log_inv (read_pos j1) ?s1"
    using "1.prems"(2) wf log_inv_cong [of ?s1 s] by simp
  have fit1: "fits j1" using "1.prems"(3) wf by (simp add: fits_def)
  show ?case
  proof (cases "j_error j1 \<noteq> 0")
    case True
    with "1.prems"(1) w have re: "replay_error ?s1 = Inr (r, s')"
      by (simp add: replay_loop.simps [of script s])
    from replay_error_nonzero [OF re] True have nz: "r \<noteq> 0" by simp
    from replay_error_cases [OF re] show ?thesis
    proof
      assume "s' = ?s1"
      with inv1 show ?thesis by simp
    next
      assume b: "j_error (journaler ?s1) = - EINVAL \<and>
        expire_pos (journaler ?s1) \<le> read_pos (journaler ?s1) \<and> s' = reread_and_trim ?s1"
      have "log_inv (read_pos (journaler ?s1)) ?s1" using inv1 by simp
      with b nz show ?thesis by blast
    qed
  next
    case noerr: False
    show ?thesis
    proof (cases "is_readable j1")
      case False
      with "1.prems"(1) w noerr have "s' = ?s1"
        by (auto simp: replay_loop.simps [of script s] split: if_splits)
      with inv1 show ?thesis by simp
    next
      case True
      obtain x j2 where t: "try_read_entry j1 = (x, j2)" by (cases "try_read_entry j1")
      have c2: "\<not> (\<not> is_readable j1 \<and> read_pos j1 = write_pos j1)" using True by simp
      have c3: "\<not> \<not> is_readable j1" using True by simp
      show ?thesis
      proof (cases x)
        case None
        with "1.prems"(1) w noerr True t have e: "j_error j2 \<noteq> 0"
          and rec: "replay_loop script1 (s\<lparr>journaler := j2\<rparr>) = Some (Inr (r, s'))"
          by (auto simp: replay_loop.simps [of script s] split: if_splits)
        note tn = try_read_entry_None [OF t [unfolded None]]
        have inv2: "log_inv (read_pos (journaler (s\<lparr>journaler := j2\<rparr>))) (s\<lparr>journaler := j2\<rparr>)"
          using inv1 tn log_inv_cong [of "s\<lparr>journaler := j2\<rparr>" ?s1] by simp
        have fit2: "fits (journaler (s\<lparr>journaler := j2\<rparr>))"
          using fit1 tn by (simp add: fits_def)
        from "1.IH"(1) [OF w refl noerr c2 c3 t [symmetric] None e rec inv2 fit2]
        show ?thesis .
      next
        case (Some bl)
        note ts = try_read_entry_Some [OF t [unfolded Some]]
        have sz: "unat (read_pos j1) + (4 + bl_length bl)
                    + entries_size (prefetched j2 @ on_disk j2) < 2 ^ 64"
          using fit1 ts by (simp add: fits_def)
        then have adv: "read_pos j1 < read_pos j2"
          unfolding ts(3) by (intro word_advance) simp_all
        have un: "unat (read_pos j2) = unat (read_pos j1) + (4 + bl_length bl)"
          unfolding ts(3) using sz by (intro unat_advance) simp
        have fit2: "fits j2" using sz un by (simp add: fits_def)
        show ?thesis
        proof (cases "bl_event bl")
          case None
          with "1.prems"(1) w noerr True t Some
          have sk: "mds_log_skip_corrupt_events (conf s)"
            and rec: "replay_loop script1 (s\<lparr>journaler := j2\<rparr>) = Some (Inr (r, s'))"
            by (auto simp: replay_loop.simps [of script s] split: if_splits)
          have inv2: "log_inv (read_pos (journaler (s\<lparr>journaler := j2\<rparr>)))
                        (s\<lparr>journaler := j2\<rparr>)"
            using log_inv_advance [OF inv1 adv] log_inv_cong [of "s\<lparr>journaler := j2\<rparr>" ?s1]
            by simp
          from "1.IH"(2) [OF w refl noerr c2 c3 t [symmetric] Some None sk rec inv2] fit2
          show ?thesis by simp
        next
          case ev: (Some le)
          let ?s3 = "replay_event (read_pos j1) le (s\<lparr>journaler := j2\<rparr>)"
          from "1.prems"(1) w noerr True t Some ev
          have rec: "replay_loop script1 ?s3 = Some (Inr (r, s'))"
            by (auto simp: replay_loop.simps [of script s] split: if_splits)
          have "log_inv (read_pos j1) (s\<lparr>journaler := j2\<rparr>)"
            using inv1 log_inv_cong [of "s\<lparr>journaler := j2\<rparr>" ?s1] by simp
          from replay_event_inv [OF this, of le] adv
          have inv3: "log_inv (read_pos (journaler ?s3)) ?s3"
            by (simp add: replay_event_journaler)
          have fit3: "fits (journaler ?s3)"
            using fit2 by (simp add: replay_event_journaler)
          from "1.IH"(3) [OF w refl noerr c2 c3 t [symmetric] Some ev rec inv3 fit3]
          show ?thesis .
        qed
      qed
    qed
  qed
qed

subsection \<open>Rotation of the segments\<close>

text \<open>
  C1, as the source has it.  The log is enabled (\<^verbatim>\<open>mds_log\<close>) and \<^verbatim>\<open>submit_entry\<close> returns.
  \<open>wp\<close> is the write position after the append of the event, \<open>last_seg\<close> the greatest key
  of the index, \<open>period\<close> the layout period.
  \<^item> When the event is a subtree map, or an import finish while the server is in resolve, the
    call is the append alone: no segment is started (the counter \<^verbatim>\<open>segadd\<close>, the keys and
    addresses of the index, the allocator and the stray pointer are unchanged).
  \<^item> Otherwise, when \<open>wp div period \<noteq> last_seg div period\<close>, the call is the append followed
    by \<^verbatim>\<open>start_new_segment\<close> on the state that the append leaves, and what it returns is what
    \<^verbatim>\<open>start_new_segment\<close> returns; so a segment is started at \<open>wp\<close>: the index maps \<open>wp\<close>
    to a new address, \<^verbatim>\<open>segadd\<close> and the stray pointer advance by one.
  \<^item> Otherwise, when \<^verbatim>\<open>mds_debug_subtrees\<close> is off or the event is a \<^verbatim>\<open>SUBTREEMAP_TEST\<close>, the call is
    the append alone and no segment is started.
  \<^item> Otherwise the call itself starts no segment: it is the append followed by the submission
    of a \<^verbatim>\<open>SUBTREEMAP_TEST\<close> event, to which the same rule applies.
\<close>

theorem submit_entry_rotation:
  assumes enabled: "mds_log (conf s)"
    and sorted: "sorted_wrt (<) (map fst (segments s))"
    and ret: "submit_entry le c s = Inr s'"
    and wp: "wp = write_pos (journaler s) + of_nat (8 + ev_size le)"
    and last_seg: "last_seg = Max (set (map fst (segments s)))"
    and period: "period = layout_period (journaler s)"
  shows
    "(rotation_suppressed le s \<longrightarrow>
        submit_entry_append le c (s\<lparr>cur_event := None\<rparr>) = Inr s' \<and>
        l_mdl_segadd (logger s') = l_mdl_segadd (logger s) \<and>
        seg_keys s' = seg_keys s \<and> next_seg s' = next_seg s \<and>
        stray (mds s') = stray (mds s)) \<and>
     (\<not> rotation_suppressed le s \<and> wp div period \<noteq> last_seg div period \<longrightarrow>
        (\<exists>s1. submit_entry_append le c (s\<lparr>cur_event := None\<rparr>) = Inr s1 \<and>
              start_new_segment None s1 = Inr s') \<and>
        l_mdl_segadd (logger s') = l_mdl_segadd (logger s) + 1 \<and>
        (wp, next_seg s) \<in> set (seg_keys s') \<and> next_seg s' = Suc (next_seg s) \<and>
        stray (mds s') = Suc (stray (mds s))) \<and>
     (\<not> rotation_suppressed le s \<and> wp div period = last_seg div period \<and>
      \<not> (mds_debug_subtrees (conf s) \<and> ev_type le \<noteq> EVENT_SUBTREEMAP_TEST) \<longrightarrow>
        submit_entry_append le c (s\<lparr>cur_event := None\<rparr>) = Inr s' \<and>
        l_mdl_segadd (logger s') = l_mdl_segadd (logger s) \<and>
        seg_keys s' = seg_keys s \<and> next_seg s' = next_seg s \<and>
        stray (mds s') = stray (mds s)) \<and>
     (\<not> rotation_suppressed le s \<and> wp div period = last_seg div period \<and>
      mds_debug_subtrees (conf s) \<and> ev_type le \<noteq> EVENT_SUBTREEMAP_TEST \<longrightarrow>
        (\<exists>s1 sle s2.
           submit_entry_append le c (s\<lparr>cur_event := None\<rparr>) = Inr s1 \<and>
           create_subtree_map s1 = Inr (sle, s2) \<and>
           submit_entry (sle\<lparr>ev_type := EVENT_SUBTREEMAP_TEST\<rparr>) None s2 = Inr s'))"
proof -
  from enabled ret obtain s1 where
    app: "submit_entry_append le c (s\<lparr>cur_event := None\<rparr>) = Inr s1"
    by (auto simp: submit_entry.simps split: if_splits sum.splits)
  note fr = submit_entry_append_frame [OF app]
  have ne: "segments s \<noteq> []"
    using app by (auto simp: submit_entry_append_def split: if_splits)
  have mk: "map fst (seg_keys x) = map fst (segments x)" for x
    by (simp add: seg_keys_def comp_def)
  have sk: "seg_keys (s\<lparr>cur_event := None\<rparr>) = seg_keys s"
    by (simp add: seg_keys_def)
  from fr(2) sk have "map fst (seg_keys s1) = map fst (seg_keys s)" by simp
  then have keys1: "map fst (segments s1) = map fst (segments s)"
    by (simp only: mk)
  have "fst (last (segments s1)) = last (map fst (segments s1))"
    using fr(3) by (simp add: last_map)
  also have "\<dots> = fst (last (segments s))"
    using ne by (simp add: keys1 last_map)
  also have "\<dots> = last_seg"
    using last_sorted_Max [OF sorted ne] last_seg by simp
  finally have off: "get_last_segment_offset s1 = Inr last_seg"
    using fr(3) by (simp add: get_last_segment_offset_def)
  have sup1: "rotation_suppressed le s1 = rotation_suppressed le s"
    using fr(5) by (simp add: rotation_suppressed_def)
  have wp1: "write_pos (journaler s1) = wp" using fr(1) wp by simp
  have per1: "layout_period (journaler s1) = period" using fr(8) period by simp
  have rest: "(if rotation_suppressed le s then Inr s1
       else if period = 0 then Inl DivideByZero
       else if wp div period \<noteq> last_seg div period then start_new_segment None s1
       else if mds_debug_subtrees (conf s) \<and> ev_type le \<noteq> EVENT_SUBTREEMAP_TEST
       then (case create_subtree_map s1 of Inl e \<Rightarrow> Inl e
             | Inr (sle, s2) \<Rightarrow>
                submit_entry (sle\<lparr>ev_type := EVENT_SUBTREEMAP_TEST\<rparr>) None s2)
       else Inr s1) = Inr s'"
    using ret enabled app off sup1 wp1 per1 fr(5,6)
    by (auto simp: submit_entry.simps rotation_suppressed_def split: if_splits)
  have same: "s1 = s' \<Longrightarrow>
     submit_entry_append le c (s\<lparr>cur_event := None\<rparr>) = Inr s' \<and>
     l_mdl_segadd (logger s') = l_mdl_segadd (logger s) \<and>
     seg_keys s' = seg_keys s \<and> next_seg s' = next_seg s \<and> stray (mds s') = stray (mds s)"
    using app fr(2,4,5,7) by (auto simp: seg_keys_def)
  have c1: "rotation_suppressed le s \<longrightarrow>
        submit_entry_append le c (s\<lparr>cur_event := None\<rparr>) = Inr s' \<and>
        l_mdl_segadd (logger s') = l_mdl_segadd (logger s) \<and>
        seg_keys s' = seg_keys s \<and> next_seg s' = next_seg s \<and>
        stray (mds s') = stray (mds s)"
    using rest same by (auto split: if_splits)
  have c2: "\<not> rotation_suppressed le s \<and> wp div period \<noteq> last_seg div period \<longrightarrow>
        (\<exists>s1. submit_entry_append le c (s\<lparr>cur_event := None\<rparr>) = Inr s1 \<and>
              start_new_segment None s1 = Inr s') \<and>
        l_mdl_segadd (logger s') = l_mdl_segadd (logger s) + 1 \<and>
        (wp, next_seg s) \<in> set (seg_keys s') \<and> next_seg s' = Suc (next_seg s) \<and>
        stray (mds s') = Suc (stray (mds s))"
  proof (intro impI, elim conjE)
    assume "\<not> rotation_suppressed le s" and "wp div period \<noteq> last_seg div period"
    with rest have st: "start_new_segment None s1 = Inr s'"
      by (auto split: if_splits)
    have en1: "mds_log (conf s1)" using enabled fr(6) by simp
    show "(\<exists>s1. submit_entry_append le c (s\<lparr>cur_event := None\<rparr>) = Inr s1 \<and>
              start_new_segment None s1 = Inr s') \<and>
        l_mdl_segadd (logger s') = l_mdl_segadd (logger s) + 1 \<and>
        (wp, next_seg s) \<in> set (seg_keys s') \<and> next_seg s' = Suc (next_seg s) \<and>
        stray (mds s') = Suc (stray (mds s))"
      using start_new_segment_frame [OF en1 st] fr(4,5,7) wp1 app st by simp
  qed
  have c3: "\<not> rotation_suppressed le s \<and> wp div period = last_seg div period \<and>
      \<not> (mds_debug_subtrees (conf s) \<and> ev_type le \<noteq> EVENT_SUBTREEMAP_TEST) \<longrightarrow>
        submit_entry_append le c (s\<lparr>cur_event := None\<rparr>) = Inr s' \<and>
        l_mdl_segadd (logger s') = l_mdl_segadd (logger s) \<and>
        seg_keys s' = seg_keys s \<and> next_seg s' = next_seg s \<and>
        stray (mds s') = stray (mds s)"
    using rest same by (auto split: if_splits)
  have c4: "\<not> rotation_suppressed le s \<and> wp div period = last_seg div period \<and>
      mds_debug_subtrees (conf s) \<and> ev_type le \<noteq> EVENT_SUBTREEMAP_TEST \<longrightarrow>
        (\<exists>s1 sle s2.
           submit_entry_append le c (s\<lparr>cur_event := None\<rparr>) = Inr s1 \<and>
           create_subtree_map s1 = Inr (sle, s2) \<and>
           submit_entry (sle\<lparr>ev_type := EVENT_SUBTREEMAP_TEST\<rparr>) None s2 = Inr s')"
    using rest app by (auto split: if_splits sum.splits)
  from c1 c2 c3 c4 show ?thesis by blast
qed

theorem submit_entry_rotation_witness:
  "\<exists>s'. submit_entry ev7 None log0 = Inr s' \<and>
      \<not> rotation_suppressed ev7 log0 \<and>
      (1058 :: u64) div 1024 \<noteq> 0 div 1024 \<and>
      (\<exists>s1. submit_entry_append ev7 None (log0\<lparr>cur_event := None\<rparr>) = Inr s1 \<and>
            start_new_segment None s1 = Inr s') \<and>
      l_mdl_segadd (logger s') = 1 \<and>
      (1058, 1) \<in> set (seg_keys s') \<and> next_seg s' = 2 \<and> stray (mds s') = 1"
proof -
  have "\<exists>s'. submit_entry ev7 None log0 = Inr s'"
    by (simp add: submit_entry.simps start_new_segment.simps
        journal_segment_subtree_map.simps create_subtree_map_def start_entry_def
        submit_entry_append_def prepare_new_segment_def Let_def split_beta
        ceph_clock_now_def get_last_segment_offset_def append_entry_def
        encode_with_header_def new_LogSegment_def get_write_pos_def
        log0_def conf0_def mds0_def journaler0_def ev7_def)
  then obtain s' where ret: "submit_entry ev7 None log0 = Inr s'" ..
  have sup: "\<not> rotation_suppressed ev7 log0"
    by (simp add: rotation_suppressed_def ev7_def)
  have "mds_log (conf log0)" and "sorted_wrt (<) (map fst (segments log0))"
    by (simp_all add: log0_def conf0_def)
  from submit_entry_rotation [OF this ret refl refl refl] sup ret
  show ?thesis
    by (simp add: log0_def journaler0_def mds0_def logger0_def ev7_def)
qed

text \<open>
  With the log disabled the claim fails: the event is not suppressed and the write position
  (3000) is two periods past the last segment (0), yet \<^verbatim>\<open>submit_entry\<close> returns before the
  rotation check and starts no segment.
\<close>

theorem submit_entry_rotation_counterexample:
  "\<not> rotation_suppressed ev7 log0_disabled_far \<and>
   write_pos (journaler log0_disabled_far) div layout_period (journaler log0_disabled_far)
     \<noteq> fst (last (segments log0_disabled_far)) div layout_period (journaler log0_disabled_far) \<and>
   submit_entry ev7 None log0_disabled_far = Inr (log0_disabled_far\<lparr>cur_event := None\<rparr>)"
  by (simp add: submit_entry.simps rotation_suppressed_def log0_disabled_far_def
      log0_disabled_def log0_def conf0_def mds0_def journaler0_def ev7_def)

subsection \<open>Starting a segment\<close>

text \<open>
  C2, as the source has it.  The log is enabled (\<^verbatim>\<open>mds_log\<close>), the server is not replaying,
  no entry is in progress and the log is not capped; the index is a map (its keys ascend)
  and no segment starts beyond the write position.  Then \<^verbatim>\<open>start_new_segment\<close> returns, and
  in the state it leaves: the last segment of the index is a new one (a fresh address) at
  the write position of the call; the stray directory pointer has advanced once; the
  segment holds one event and ends where the journal now ends; and the journal has grown
  by one entry, at the segment's offset, which is a subtree map attached to this segment.
\<close>

theorem start_new_segment_one_event:
  assumes "mds_log (conf s)" and "\<not> is_any_replay (mds s)" and "cur_event s = None"
    and "\<not> capped s"
    and "sorted_wrt (<) (map fst (segments s))"
    and "\<forall>k \<in> set (map fst (segments s)). k \<le> write_pos (journaler s)"
  shows "\<exists>s' ls bl le.
           start_new_segment onsync s = Inr s' \<and>
           last (segments s') = (write_pos (journaler s), ls) \<and>
           seg_id ls = next_seg s \<and>
           offset ls = write_pos (journaler s) \<and>
           seg_num_events ls = 1 \<and>
           seg_end ls = write_pos (journaler s) + of_nat (8 + subtree_map_size (mds s)) \<and>
           seg_end ls = write_pos (journaler s') \<and>
           stray (mds s') = Suc (stray (mds s)) \<and>
           appended (journaler s') = appended (journaler s) @ [(write_pos (journaler s), bl)] \<and>
           bl_event bl = Some le \<and> ev_type le = EVENT_SUBTREEMAP \<and>
           ev_segment le = Some (next_seg s)"
  using assms
  apply (cases onsync)
  apply (simp_all add: start_new_segment.simps journal_segment_subtree_map.simps create_subtree_map_def start_entry_def
       submit_entry.simps submit_entry_append_def prepare_new_segment_def Let_def
       map_assign_not_Nil last_map_assign split_beta ceph_clock_now_fields get_last_segment_offset_def
      append_entry_def encode_with_header_def new_LogSegment_def get_write_pos_def wait_for_safe_def flush_def wait_for_flush_def journaler_flush_def)
  done

theorem start_new_segment_one_event_witness:
  "\<exists>s' ls bl le.
     start_new_segment (Some 4) log0_idle = Inr s' \<and>
     last (segments s') = (1000, ls) \<and>
     seg_id ls = 1 \<and> offset ls = 1000 \<and> seg_num_events ls = 1 \<and>
     seg_end ls = 1108 \<and> seg_end ls = write_pos (journaler s') \<and>
     stray (mds s') = 1 \<and>
     appended (journaler s') = [(1000, bl)] \<and>
     bl_event bl = Some le \<and> ev_type le = EVENT_SUBTREEMAP \<and> ev_segment le = Some 1"
  using start_new_segment_one_event [of log0_idle "Some 4"]
  by (simp add: log0_idle_def log0_def conf0_def mds0_def journaler0_def)

text \<open>
  With the log disabled the claim fails: \<^verbatim>\<open>submit_entry\<close> returns before it counts or appends
  the subtree map, and the segment that \<^verbatim>\<open>start_new_segment\<close> has inserted holds no event.
\<close>

theorem start_new_segment_disabled_counterexample:
  "\<exists>s'. start_new_segment None log0_disabled_idle = Inr s' \<and>
      segments s' =
        [(0, \<lparr>seg_id = 0, offset = 0, seg_end = 1000, seg_num_events = 3\<rparr>),
         (1000, \<lparr>seg_id = 1, offset = 1000, seg_end = 1000, seg_num_events = 0\<rparr>)] \<and>
      appended (journaler s') = [] \<and> write_pos (journaler s') = 1000 \<and>
      num_events s' = 3"
  by (simp add: start_new_segment.simps journal_segment_subtree_map.simps
      create_subtree_map_def start_entry_def submit_entry.simps prepare_new_segment_def
      new_LogSegment_def get_write_pos_def log0_disabled_idle_def log0_disabled_def
      log0_def conf0_def mds0_def journaler0_def)

subsection \<open>The trim loop\<close>

text \<open>
  C3, as the source has it.  On a well-formed log whose bound \<^verbatim>\<open>mds_log_max_segments\<close> is an
  \<^verbatim>\<open>int\<close>, \<^verbatim>\<open>trim\<close> is \<open>trim_spec\<close>: it does nothing on an empty index; otherwise it reads
  the clock, runs the loop of the specification over the index from its first segment on
  (the index is a \<^verbatim>\<open>std::map\<close>: in ascending order of the offsets), and then runs
  \<^verbatim>\<open>_trim_expired_segments\<close>.  The unsigned comparison of the source is the comparison of
  the live count with the bound.
\<close>

theorem trim_refines_spec:
  assumes "sets_wf s" and "mds_log_max_segments (conf s) < 2 ^ 31"
  shows "trim m s = trim_spec m s"
proof (cases "segments s = []")
  case True
  then show ?thesis by (simp add: trim_def trim_spec_def)
next
  case False
  obtain now s1 where c: "ceph_clock_now s = (now, s1)" by (cases "ceph_clock_now s")
  then have s1: "s1 = snd (ceph_clock_now s)" by simp
  have f1: "segments s1 = segments s" "expiring_segments s1 = expiring_segments s"
    "expired_segments s1 = expired_segments s"
    unfolding s1 by (simp_all add: ceph_clock_now_fields)
  have wf1: "sets_wf s1" using sets_wf_cong [OF f1] assms(1) by simp
  have "trim_loop me (mds_log_max_segments (conf s)) stop (segments s1) s1 =
        trim_loop_spec me (mds_log_max_segments (conf s)) stop (segments s1) s1" for me stop
    by (rule trim_loop_refines [OF wf1 assms(2)]) simp
  with False c show ?thesis
    by (simp add: trim_def trim_spec_def Let_def)
qed

theorem trim_refines_spec_witness:
  "sets_wf log0_tight \<and> mds_log_max_segments (conf log0_tight) < 2 ^ 31 \<and>
   segments log0_tight \<noteq> [] \<and>
   trim (- 1) log0_tight = trim_spec (- 1) log0_tight"
proof -
  have h: "sets_wf log0_tight" "mds_log_max_segments (conf log0_tight) < 2 ^ 31"
    by (simp_all add: sets_wf_def log0_tight_def log0_idle_def log0_def conf0_def)
  have "segments log0_tight \<noteq> []"
    by (simp add: log0_tight_def log0_idle_def log0_def)
  with h trim_refines_spec [OF h, of "- 1"] show ?thesis by (intro conjI)
qed

text \<open>
  The claim leaves out the first reason to stop.  In \<open>log0_tight\<close> no segment is allowed
  and the only segment is the current one of an uncapped log, which cannot expire: the loop
  visits it and ends at the end of the index, while the live count is over the bound, the
  clock has not moved, no segment is expiring and no segment is left to look at.
\<close>

theorem trim_loop_exhausted_counterexample:
  "\<exists>s'. trim_loop (- 1) 0 (5 + two_seconds) (segments log0_tight) log0_tight = Inr s' \<and>
        \<not> claimed_stop (- 1) 0 (5 + two_seconds) [] s'"
  by (simp add: claimed_stop_def within_bounds_def live_segments_def live_events_def
      ceph_clock_now_def over_max_events_def over_max_segments_def size_t_def
      try_expire_def try_to_expire_def expired_def set_count_def peek_current_segment_def
      two_seconds_def Let_def
      log0_tight_def log0_idle_def log0_def conf0_def mds0_def journaler0_def)

subsection \<open>Trimming the expired segments\<close>

text \<open>
  C4.  On a well-formed index, \<^verbatim>\<open>_trim_expired_segments\<close> removes the longest prefix of the
  index whose segments are in the expired set: the index was the removed segments followed
  by what is left, every removed segment was expired, and the oldest segment left (if any)
  was not.  The addresses of the removed segments leave the expired set, their events are
  subtracted from \<^verbatim>\<open>num_events\<close> (and from \<^verbatim>\<open>expired_events\<close>), the expire position of the
  journal advances to the offset of the last segment removed (it stays where it is when it
  is already beyond, \<^verbatim>\<open>set_expire_pos\<close> being called only to move forward), and the head is
  written once if a segment was removed, not at all otherwise.
\<close>

theorem trim_expired_segments_prefix:
  assumes wf: "index_wf (segments s)"
    and removed: "removed = takeWhile (is_expired s) (segments s)"
    and s': "s' = trim_expired_segments s"
  shows "segments s = removed @ segments s' \<and>
         (\<forall>kv \<in> set removed. is_expired s kv) \<and>
         (segments s' \<noteq> [] \<longrightarrow> \<not> is_expired s (hd (segments s'))) \<and>
         set (expired_segments s') =
           set (expired_segments s) - set (map (\<lambda>kv. seg_id (snd kv)) removed) \<and>
         num_events s' =
           num_events s - sum_list (map (\<lambda>kv. seg_num_events (snd kv)) removed) \<and>
         expired_events s' =
           expired_events s - sum_list (map (\<lambda>kv. seg_num_events (snd kv)) removed) \<and>
         expire_pos (journaler s') =
           (if removed = [] then expire_pos (journaler s)
            else max (expire_pos (journaler s)) (fst (last removed))) \<and>
         head_writes (journaler s') =
           (if removed = [] then head_writes (journaler s)
            else Suc (head_writes (journaler s)))"
proof -
  define r where "r = trim_expired_loop False s"
  note run = trim_expired_loop_run [OF refl wf removed r_def]
  have trimmed: "fst r = (removed \<noteq> [])" using run by simp
  have s'_eq: "s' = (if removed \<noteq> []
                   then (snd r)\<lparr>journaler := journaler_write_head (journaler (snd r))\<rparr>
                   else snd r)"
    unfolding s' trim_expired_segments_def r_def [symmetric] split_beta Let_def trimmed ..
  have seg: "segments s' = segments (snd r)"
    and ex: "expired_segments s' = expired_segments (snd r)"
    and ne: "num_events s' = num_events (snd r)"
    and ee: "expired_events s' = expired_events (snd r)"
    and ep: "expire_pos (journaler s') = expire_pos (journaler (snd r))"
    and hw: "head_writes (journaler s') =
             (if removed = [] then head_writes (journaler (snd r))
              else Suc (head_writes (journaler (snd r))))"
    unfolding s'_eq by (simp_all add: journaler_write_head_def)
  have left: "segments s' = dropWhile (is_expired s) (segments s)"
    unfolding seg using run removed by (simp add: dropWhile_eq_drop)
  have split: "segments s = removed @ segments s'"
    unfolding left removed by simp
  have all: "\<forall>kv \<in> set removed. is_expired s kv"
    unfolding removed by (auto dest: set_takeWhileD)
  have first: "segments s' \<noteq> [] \<longrightarrow> \<not> is_expired s (hd (segments s'))"
    unfolding left using hd_dropWhile [of "is_expired s" "segments s"] by blast
  have c4: "set (expired_segments s') =
           set (expired_segments s) - set (map (\<lambda>kv. seg_id (snd kv)) removed)"
    unfolding ex using run by blast
  have c5: "num_events s' =
           num_events s - sum_list (map (\<lambda>kv. seg_num_events (snd kv)) removed)"
    unfolding ne using run by blast
  have c6: "expired_events s' =
           expired_events s - sum_list (map (\<lambda>kv. seg_num_events (snd kv)) removed)"
    unfolding ee using run by blast
  have c7: "expire_pos (journaler s') =
           (if removed = [] then expire_pos (journaler s)
            else max (expire_pos (journaler s)) (fst (last removed)))"
    unfolding ep using run by blast
  have "head_writes (journaler (snd r)) = head_writes (journaler s)"
    using run by blast
  then have c8: "head_writes (journaler s') =
           (if removed = [] then head_writes (journaler s)
            else Suc (head_writes (journaler s)))"
    unfolding hw by (rule arg_cong)
  from split all first c4 c5 c6 c7 c8 show ?thesis
    by (intro conjI)
qed

theorem trim_expired_segments_prefix_witness:
  "index_wf (segments log3) \<and>
   segments (trim_expired_segments log3) =
     [(250, \<lparr>seg_id = 2, offset = 250, seg_end = 1000, seg_num_events = 1\<rparr>)] \<and>
   set (expired_segments (trim_expired_segments log3)) = {} \<and>
   num_events (trim_expired_segments log3) = 1 \<and>
   expired_events (trim_expired_segments log3) = 0 \<and>
   expire_pos (journaler (trim_expired_segments log3)) = 100 \<and>
   head_writes (journaler (trim_expired_segments log3)) = 1"
proof -
  have wf: "index_wf (segments log3)"
    by (simp add: index_wf_def log3_def log0_def)
  have removed:
    "[(0, \<lparr>seg_id = 0, offset = 0, seg_end = 100, seg_num_events = 2\<rparr>),
      (100, \<lparr>seg_id = 1, offset = 100, seg_end = 250, seg_num_events = 3\<rparr>)]
     = takeWhile (is_expired log3) (segments log3)"
    by (simp add: is_expired_def set_count_def log3_def log0_def)
  from trim_expired_segments_prefix [OF wf removed refl] wf show ?thesis
    by (simp add: log3_def log0_def journaler0_def)
qed

subsection \<open>The event counter\<close>

text \<open>
  The counter on the paths of \<^verbatim>\<open>MDLog.cc\<close>.  The log satisfies \<open>log_inv pos\<close>: its counter
  \<^verbatim>\<open>num_events\<close> is the sum of the counters of the segments of the index (\<open>events_inv\<close>), the
  index is well formed, and its segments start before \<open>pos\<close>.  Then the same holds again
  \<^item> when \<^verbatim>\<open>submit_entry\<close> or \<^verbatim>\<open>start_new_segment\<close> returns (\<open>pos\<close> is the write position, before
    and after, and the journal stays below \<open>2 ^ 64\<close> bytes with the event and the subtree
    maps that the call may add),
  \<^item> when \<^verbatim>\<open>trim\<close>, \<^verbatim>\<open>try_expire\<close> or \<^verbatim>\<open>_maybe_expired\<close> returns, and after \<^verbatim>\<open>cap\<close>,
  \<^item> when a replay returns (\<open>pos\<close> is the read position, before and after, and the journal
    read stays below \<open>2 ^ 64\<close> bytes), with status 0 or with an error, unless the replay went
    through lines 1515 to 1536: the journaler failed with \<^verbatim>\<open>EINVAL\<close> at a read position not
    behind the expire position, in a state \<open>s0\<close> that satisfied \<open>log_inv\<close>, and the loop ended
    in \<open>reread_and_trim s0\<close>.
  So \<^verbatim>\<open>standby_trim_segments\<close> is the one place where the counter and the index can part.
\<close>

lemma num_events_preserved:
  assumes inv: "log_inv pos s"
  shows
    "events_inv s \<and>
     (pos = write_pos (journaler s) \<longrightarrow>
        (\<forall>le c s'. submit_entry le c s = Inr s' \<and>
            unat (write_pos (journaler s)) + ev_size le + 2 * subtree_map_size (mds s) + 24
              < 2 ^ 64 \<longrightarrow>
            events_inv s' \<and> log_inv (write_pos (journaler s')) s') \<and>
        (\<forall>onsync s'. start_new_segment onsync s = Inr s' \<and>
            unat (write_pos (journaler s)) + 8 + subtree_map_size (mds s) < 2 ^ 64 \<longrightarrow>
            events_inv s' \<and> log_inv (write_pos (journaler s')) s')) \<and>
     (\<forall>m s'. trim m s = Inr s' \<longrightarrow>
        events_inv s' \<and> log_inv pos s' \<and> write_pos (journaler s') = write_pos (journaler s)) \<and>
     (\<forall>ls p s'. try_expire ls p s = Inr s' \<longrightarrow>
        events_inv s' \<and> log_inv pos s' \<and> journaler s' = journaler s) \<and>
     (\<forall>ls p s'. maybe_expired ls p s = Inr s' \<longrightarrow>
        events_inv s' \<and> log_inv pos s' \<and> journaler s' = journaler s) \<and>
     events_inv (cap s) \<and> log_inv pos (cap s) \<and>
     (pos = read_pos (journaler s) \<and> fits (journaler s) \<longrightarrow>
        (\<forall>script r s1 s'. replay_loop script s = Some (Inr (r, s1)) \<and>
            replay_thread script s = Some (Inr s') \<longrightarrow>
            events_inv s' \<and> log_inv (read_pos (journaler s')) s' \<or>
            r \<noteq> 0 \<and>
            (\<exists>s0. log_inv (read_pos (journaler s0)) s0 \<and> j_error (journaler s0) = - EINVAL \<and>
                  expire_pos (journaler s0) \<le> read_pos (journaler s0) \<and>
                  s1 = reread_and_trim s0)))"
proof -
  have ev: "events_inv x" if "log_inv p x" for p x
    using that by (simp add: log_inv_def)
  have c0: "events_inv s" using ev [OF inv] .
  have c1: "pos = write_pos (journaler s) \<longrightarrow>
        (\<forall>le c s'. submit_entry le c s = Inr s' \<and>
            unat (write_pos (journaler s)) + ev_size le + 2 * subtree_map_size (mds s) + 24
              < 2 ^ 64 \<longrightarrow>
            events_inv s' \<and> log_inv (write_pos (journaler s')) s') \<and>
        (\<forall>onsync s'. start_new_segment onsync s = Inr s' \<and>
            unat (write_pos (journaler s)) + 8 + subtree_map_size (mds s) < 2 ^ 64 \<longrightarrow>
            events_inv s' \<and> log_inv (write_pos (journaler s')) s')"
    using inv submit_entry_inv start_new_segment_inv(1) ev by blast
  have c2: "\<forall>m s'. trim m s = Inr s' \<longrightarrow>
        events_inv s' \<and> log_inv pos s' \<and> write_pos (journaler s') = write_pos (journaler s)"
    using inv trim_inv ev by blast
  have c3: "\<forall>ls p s'. try_expire ls p s = Inr s' \<longrightarrow>
        events_inv s' \<and> log_inv pos s' \<and> journaler s' = journaler s"
  proof (intro allI impI)
    fix ls p s'
    assume t: "try_expire ls p s = Inr s'"
    note f = try_expire_frame [OF t]
    from log_inv_cong [OF f(1,3)] inv have "log_inv pos s'" by simp
    with ev f(4) show "events_inv s' \<and> log_inv pos s' \<and> journaler s' = journaler s"
      by blast
  qed
  have c4: "\<forall>ls p s'. maybe_expired ls p s = Inr s' \<longrightarrow>
        events_inv s' \<and> log_inv pos s' \<and> journaler s' = journaler s"
  proof (intro allI impI)
    fix ls p s'
    assume m: "maybe_expired ls p s = Inr s'"
    let ?s1 = "s\<lparr>expiring_segments := set_erase (seg_id ls) (expiring_segments s),
                 expiring_events := expiring_events s - seg_num_events ls\<rparr>"
    from m have t: "try_expire ls p ?s1 = Inr s'"
      by (auto simp: maybe_expired_def split: if_splits)
    note f = try_expire_frame [OF t]
    have "segments s' = segments s" "num_events s' = num_events s" using f(1,3) by simp_all
    from log_inv_cong [OF this] inv have "log_inv pos s'" by simp
    with ev f(4) show "events_inv s' \<and> log_inv pos s' \<and> journaler s' = journaler s"
      by auto
  qed
  have c5: "log_inv pos (cap s)"
    using inv log_inv_cong [of "cap s" s] by (simp add: cap_def)
  have c6: "pos = read_pos (journaler s) \<and> fits (journaler s) \<longrightarrow>
        (\<forall>script r s1 s'. replay_loop script s = Some (Inr (r, s1)) \<and>
            replay_thread script s = Some (Inr s') \<longrightarrow>
            events_inv s' \<and> log_inv (read_pos (journaler s')) s' \<or>
            r \<noteq> 0 \<and>
            (\<exists>s0. log_inv (read_pos (journaler s0)) s0 \<and> j_error (journaler s0) = - EINVAL \<and>
                  expire_pos (journaler s0) \<le> read_pos (journaler s0) \<and>
                  s1 = reread_and_trim s0))"
  proof (intro allI impI, elim conjE)
    fix script r s1 s'
    assume p: "pos = read_pos (journaler s)" and ft: "fits (journaler s)"
      and l: "replay_loop script s = Some (Inr (r, s1))"
      and th: "replay_thread script s = Some (Inr s')"
    from inv p have "log_inv (read_pos (journaler s)) s" by simp
    from replay_loop_inv [OF l this ft]
    show "events_inv s' \<and> log_inv (read_pos (journaler s')) s' \<or>
            r \<noteq> 0 \<and>
            (\<exists>s0. log_inv (read_pos (journaler s0)) s0 \<and> j_error (journaler s0) = - EINVAL \<and>
                  expire_pos (journaler s0) \<le> read_pos (journaler s0) \<and>
                  s1 = reread_and_trim s0)"
    proof
      assume i1: "log_inv (read_pos (journaler s1)) s1"
      from th l have "segments s' = segments s1" "num_events s' = num_events s1"
        "journaler s' = journaler s1"
        by (auto simp: replay_thread_def finish_contexts_def split: if_splits)
      with log_inv_cong [of s' s1] i1 have "log_inv (read_pos (journaler s')) s'" by simp
      with ev show ?thesis by blast
    next
      assume "r \<noteq> 0 \<and>
            (\<exists>s0. log_inv (read_pos (journaler s0)) s0 \<and> j_error (journaler s0) = - EINVAL \<and>
                  expire_pos (journaler s0) \<le> read_pos (journaler s0) \<and>
                  s1 = reread_and_trim s0)"
      then show ?thesis ..
    qed
  qed
  from c0 c1 c2 c3 c4 ev [OF c5] c5 c6 show ?thesis by (intro conjI)
qed

lemma num_events_preserved_example:
  "log_inv (write_pos (journaler log0)) log0 \<and>
   (\<exists>s'. submit_entry ev7 None log0 = Inr s' \<and> events_inv s' \<and>
         log_inv (write_pos (journaler s')) s') \<and>
   log_inv (write_pos (journaler log3)) log3 \<and>
   (\<exists>s'. trim (- 1) log3 = Inr s' \<and> events_inv s')"
proof -
  have i0: "log_inv (write_pos (journaler log0)) log0"
    by (simp add: log_inv_def events_inv_def keys_behind_def log0_def journaler0_def)
  have i3: "log_inv (write_pos (journaler log3)) log3"
    by (simp add: log_inv_def events_inv_def keys_behind_def log3_def log0_def journaler0_def)
  have "\<exists>s'. submit_entry ev7 None log0 = Inr s'"
    by (simp add: submit_entry.simps start_new_segment.simps
        journal_segment_subtree_map.simps create_subtree_map_def start_entry_def
        submit_entry_append_def prepare_new_segment_def Let_def split_beta
        ceph_clock_now_def get_last_segment_offset_def append_entry_def
        encode_with_header_def new_LogSegment_def get_write_pos_def
        log0_def conf0_def mds0_def journaler0_def ev7_def)
  then obtain s' where ret: "submit_entry ev7 None log0 = Inr s'" ..
  have fit: "unat (write_pos (journaler log0)) + ev_size ev7
               + 2 * subtree_map_size (mds log0) + 24 < 2 ^ 64"
    by (simp add: log0_def journaler0_def mds0_def ev7_def)
  have "\<exists>t. trim (- 1) log3 = Inr t"
    by (simp add: trim_def Let_def ceph_clock_now_def over_max_events_def
        over_max_segments_def size_t_def trim_expired_segments_def
        trim_expired_loop.simps set_count_def set_erase_def map_erase_def
        two_seconds_def log3_def log0_def conf0_def mds0_def journaler0_def)
  then obtain t where tr: "trim (- 1) log3 = Inr t" ..
  from num_events_preserved [OF i0] ret fit
  have 1: "\<exists>s'. submit_entry ev7 None log0 = Inr s' \<and> events_inv s' \<and>
         log_inv (write_pos (journaler s')) s'" by blast
  from num_events_preserved [OF i3] tr
  have 2: "\<exists>s'. trim (- 1) log3 = Inr s' \<and> events_inv s'" by blast
  from i0 1 i3 2 show ?thesis by (intro conjI)
qed


subsection \<open>The capped-log rule\<close>

text \<open>
  C6.  The log is not capped, \<open>cur\<close> is its current segment (the last of the index) and is
  not in the expired set.  Then \<^verbatim>\<open>_expired\<close> called on \<open>cur\<close> does not put it there; neither
  does \<^verbatim>\<open>try_expire\<close> on \<open>cur\<close> when the gather has no sub-operation; and after any
  \<^verbatim>\<open>try_expire\<close>, \<^verbatim>\<open>_maybe_expired\<close> or \<^verbatim>\<open>trim\<close> (on a well-formed index) that returns, the
  log is still uncapped, \<open>cur\<close> is still current and still not expired.  Once \<^verbatim>\<open>cap\<close> has
  been called, \<^verbatim>\<open>_expired\<close> puts \<open>cur\<close> in the expired set, and so does \<^verbatim>\<open>try_expire\<close> when the
  gather has no sub-operation.
\<close>

theorem current_segment_not_expired:
  assumes uncapped: "\<not> capped s"
    and cur: "peek_current_segment s = Some cur"
    and fresh: "seg_id cur \<notin> set (expired_segments s)"
  shows "seg_id cur \<notin> set (expired_segments (expired cur s)) \<and>
         (gather_answers (mds s) = [] \<longrightarrow>
            (\<exists>s'. try_expire cur prio s = Inr s' \<and>
                  seg_id cur \<notin> set (expired_segments s'))) \<and>
         (\<forall>ls p s'. try_expire ls p s = Inr s' \<longrightarrow> current_kept (seg_id cur) s') \<and>
         (\<forall>ls p s'. maybe_expired ls p s = Inr s' \<longrightarrow> current_kept (seg_id cur) s') \<and>
         (\<forall>m s'. index_wf (segments s) \<and> trim m s = Inr s' \<longrightarrow>
            current_kept (seg_id cur) s') \<and>
         capped (cap s) \<and>
         seg_id cur \<in> set (expired_segments (expired cur (cap s))) \<and>
         (gather_answers (mds s) = [] \<longrightarrow>
            (\<exists>s'. try_expire cur prio (cap s) = Inr s' \<and>
                  seg_id cur \<in> set (expired_segments s')))"
proof -
  have k: "current_kept (seg_id cur) s"
    using assms by (simp add: current_kept_def)
  have a1: "seg_id cur \<notin> set (expired_segments (expired cur s))"
    using expired_current_kept [OF k, of cur] by (simp add: current_kept_def)
  have a3: "\<forall>ls p s'. try_expire ls p s = Inr s' \<longrightarrow> current_kept (seg_id cur) s'"
    using try_expire_current_kept k by blast
  have a2: "gather_answers (mds s) = [] \<longrightarrow>
            (\<exists>s'. try_expire cur prio s = Inr s' \<and>
                  seg_id cur \<notin> set (expired_segments s'))"
  proof
    assume "gather_answers (mds s) = []"
    then obtain s' where t: "try_expire cur prio s = Inr s'"
      by (simp add: try_expire_def try_to_expire_def Let_def)
    with a3 have "current_kept (seg_id cur) s'" by blast
    with t show "\<exists>s'. try_expire cur prio s = Inr s' \<and>
                  seg_id cur \<notin> set (expired_segments s')"
      by (auto simp: current_kept_def)
  qed
  have a4: "\<forall>ls p s'. maybe_expired ls p s = Inr s' \<longrightarrow> current_kept (seg_id cur) s'"
  proof (intro allI impI)
    fix ls p s'
    assume m: "maybe_expired ls p s = Inr s'"
    let ?s1 = "s\<lparr>expiring_segments := set_erase (seg_id ls) (expiring_segments s),
                 expiring_events := expiring_events s - seg_num_events ls\<rparr>"
    from m have t: "try_expire ls p ?s1 = Inr s'"
      by (auto simp: maybe_expired_def split: if_splits)
    have "current_kept (seg_id cur) ?s1"
      using k current_kept_cong [of ?s1 s "seg_id cur"] by simp
    from try_expire_current_kept [OF t this] show "current_kept (seg_id cur) s'" .
  qed
  have a5: "\<forall>m s'. index_wf (segments s) \<and> trim m s = Inr s' \<longrightarrow>
            current_kept (seg_id cur) s'"
    using trim_current_kept k by blast
  have a6: "capped (cap s)" by (simp add: cap_def)
  have a7: "seg_id cur \<in> set (expired_segments (expired cur (cap s)))"
    by (simp add: cap_def expired_def Let_def set_insert_def)
  have a8: "gather_answers (mds s) = [] \<longrightarrow>
            (\<exists>s'. try_expire cur prio (cap s) = Inr s' \<and>
                  seg_id cur \<in> set (expired_segments s'))"
    by (simp add: try_expire_def try_to_expire_def Let_def cap_def expired_def set_insert_def)
  from a1 a2 a3 a4 a5 a6 a7 a8 show ?thesis by (intro conjI)
qed

theorem current_segment_not_expired_witness:
  "\<not> capped log0_tight \<and> peek_current_segment log0_tight = Some seg0 \<and>
   seg_id seg0 \<notin> set (expired_segments log0_tight) \<and>
   index_wf (segments log0_tight) \<and>
   (\<exists>s'. try_expire seg0 64 log0_tight = Inr s' \<and>
         seg_id seg0 \<notin> set (expired_segments s')) \<and>
   (\<exists>s'. trim (- 1) log0_tight = Inr s' \<and> current_kept (seg_id seg0) s') \<and>
   (\<exists>s'. try_expire seg0 64 (cap log0_tight) = Inr s' \<and>
         seg_id seg0 \<in> set (expired_segments s'))"
proof -
  have h: "\<not> capped log0_tight" "peek_current_segment log0_tight = Some seg0"
    "seg_id seg0 \<notin> set (expired_segments log0_tight)"
    by (simp_all add: log0_tight_def log0_idle_def log0_def seg0_def peek_current_segment_def)
  have wf: "index_wf (segments log0_tight)"
    by (simp add: index_wf_def log0_tight_def log0_idle_def log0_def)
  have ga: "gather_answers (mds log0_tight) = []"
    by (simp add: log0_tight_def log0_idle_def log0_def mds0_def)
  have "\<exists>s'. trim (- 1) log0_tight = Inr s'"
    by (simp add: trim_def Let_def ceph_clock_now_def over_max_events_def
        over_max_segments_def size_t_def try_expire_def try_to_expire_def expired_def
        set_count_def peek_current_segment_def two_seconds_def
        log0_tight_def log0_idle_def log0_def conf0_def mds0_def journaler0_def)
  then obtain t where t: "trim (- 1) log0_tight = Inr t" ..
  note c = current_segment_not_expired [OF h, of 64]
  from c ga have 1: "\<exists>s'. try_expire seg0 64 log0_tight = Inr s' \<and>
         seg_id seg0 \<notin> set (expired_segments s')" by blast
  from c wf t have 2: "\<exists>s'. trim (- 1) log0_tight = Inr s' \<and> current_kept (seg_id seg0) s'"
    by blast
  from c ga have 3: "\<exists>s'. try_expire seg0 64 (cap log0_tight) = Inr s' \<and>
         seg_id seg0 \<in> set (expired_segments s')" by blast
  from h wf 1 2 3 show ?thesis by (intro conjI)
qed

subsection \<open>Recovery after a crashed reformat\<close>

text \<open>
  C7, as the source has it.  The pointer \<open>jp\<close> that is loaded names a back journal, other
  than the front one; the back journal can be recovered and the pointer can be saved;
  \<open>er\<close> is the status with which the store erases the back journal.
  \<^item> When the erase succeeds or finds nothing (\<^verbatim>\<open>ENOENT\<close>): the store has seen, in this order,
    the recovery of the back journal, its erasure and the saving of the pointer with
    \<open>back = 0\<close>, which is the pointer it now holds; the back journal is gone (when the erase
    succeeded) and the front journal is what it was; the thread goes on to open the front
    journal with the cleared pointer.
  \<^item> When the erase fails otherwise: the store has seen the recovery and the failed erasure
    only; the pointer and the journals are what they were, \<open>back\<close> is not cleared, and the
    thread goes on to open the front journal all the same.
  \<^item> Opening the front journal begins with its recovery.
\<close>

theorem recovery_erases_back:
  assumes ptr: "pointer st = Some jp" and load: "load_err st = 0"
    and b: "jp_back jp \<noteq> 0" and fb: "jp_front jp \<noteq> jp_back jp"
    and rec: "fst (fst (journaler_recover (jp_back jp) st)) = 0"
    and save: "save_result st \<ge> 0"
    and er: "er = fst (journaler_erase (jp_back jp) st)"
  shows
    "(er = 0 \<or> er = - ENOENT \<longrightarrow>
        (\<exists>st'. erase_back jp st = Inr (jp\<lparr>jp_back := 0\<rparr>, st') \<and>
           io_log st' = io_log st @ [Recover (jp_back jp), Erase (jp_back jp),
                                     SavePointer (jp\<lparr>jp_back := 0\<rparr>)] \<and>
           pointer st' = Some (jp\<lparr>jp_back := 0\<rparr>) \<and>
           (er = 0 \<longrightarrow> map_of (journals st') (jp_back jp) = None) \<and>
           map_of (journals st') (jp_front jp) = map_of (journals st) (jp_front jp) \<and>
           recovery_thread nodeid fmt st = open_front nodeid fmt (jp\<lparr>jp_back := 0\<rparr>) st')) \<and>
     (er \<noteq> 0 \<and> er \<noteq> - ENOENT \<longrightarrow>
        (\<exists>st'. erase_back jp st = Inr (jp, st') \<and>
           io_log st' = io_log st @ [Recover (jp_back jp), Erase (jp_back jp)] \<and>
           pointer st' = Some jp \<and> journals st' = journals st \<and>
           recovery_thread nodeid fmt st = open_front nodeid fmt jp st')) \<and>
     (\<forall>jp' st' res. open_front nodeid fmt jp' st' = Some (Inr res) \<longrightarrow>
        (\<exists>ops. io_log (store res) = io_log st' @ Recover (jp_front jp') # ops))"
proof -
  have ld: "jp_load st = (0, jp)"
    using ptr load by (simp add: jp_load_def)
  have rt: "recovery_thread nodeid fmt st =
      (case erase_back jp st of Inl e \<Rightarrow> Some (Inl e)
       | Inr (jp', st2) \<Rightarrow> open_front nodeid fmt jp' st2)"
    using ld by (simp add: recovery_thread_def ENOENT_def)
  have mo: "map_of (filter (\<lambda>kv. fst kv \<noteq> jp_back jp) (journals st)) (jp_front jp)
            = map_of (journals st) (jp_front jp)"
    using fb by (rule map_of_filter_other)
  have mb: "map_of (filter (\<lambda>kv. fst kv \<noteq> jp_back jp) (journals st)) (jp_back jp) = None"
    by (simp add: map_of_eq_None_iff image_iff)
  have c1: "er = 0 \<or> er = - ENOENT \<longrightarrow>
        (\<exists>st'. erase_back jp st = Inr (jp\<lparr>jp_back := 0\<rparr>, st') \<and>
           io_log st' = io_log st @ [Recover (jp_back jp), Erase (jp_back jp),
                                     SavePointer (jp\<lparr>jp_back := 0\<rparr>)] \<and>
           pointer st' = Some (jp\<lparr>jp_back := 0\<rparr>) \<and>
           (er = 0 \<longrightarrow> map_of (journals st') (jp_back jp) = None) \<and>
           map_of (journals st') (jp_front jp) = map_of (journals st) (jp_front jp) \<and>
           recovery_thread nodeid fmt st = open_front nodeid fmt (jp\<lparr>jp_back := 0\<rparr>) st')"
    using b rec save er mo mb unfolding rt
    by (auto simp: erase_back_def journaler_recover_def journaler_erase_def jp_save_def
        Let_def split_beta ENOENT_def split: option.splits if_splits)
  have c2: "er \<noteq> 0 \<and> er \<noteq> - ENOENT \<longrightarrow>
        (\<exists>st'. erase_back jp st = Inr (jp, st') \<and>
           io_log st' = io_log st @ [Recover (jp_back jp), Erase (jp_back jp)] \<and>
           pointer st' = Some jp \<and> journals st' = journals st \<and>
           recovery_thread nodeid fmt st = open_front nodeid fmt jp st')"
    using b rec save er ptr unfolding rt
    by (auto simp: erase_back_def journaler_recover_def journaler_erase_def jp_save_def
        Let_def split_beta ENOENT_def split: option.splits if_splits)
  have c3: "\<forall>jp' st' res. open_front nodeid fmt jp' st' = Some (Inr res) \<longrightarrow>
        (\<exists>ops. io_log (store res) = io_log st' @ Recover (jp_front jp') # ops)"
    using open_front_log by blast
  from c1 c2 c3 show ?thesis by (intro conjI)
qed

theorem recovery_erases_back_witness:
  "pointer store_crashed_ok = Some \<lparr>jp_front = 512, jp_back = 768\<rparr> \<and>
   fst (journaler_erase 768 store_crashed_ok) = 0 \<and>
   (\<exists>st'. erase_back \<lparr>jp_front = 512, jp_back = 768\<rparr> store_crashed_ok
            = Inr (\<lparr>jp_front = 512, jp_back = 0\<rparr>, st') \<and>
         io_log st' = [Recover 768, Erase 768, SavePointer \<lparr>jp_front = 512, jp_back = 0\<rparr>] \<and>
         pointer st' = Some \<lparr>jp_front = 512, jp_back = 0\<rparr> \<and>
         map_of (journals st') 768 = None \<and>
         map_of (journals st') 512 = map_of (journals store_crashed_ok) 512 \<and>
         recovery_thread 0 1 store_crashed_ok
           = open_front 0 1 \<lparr>jp_front = 512, jp_back = 0\<rparr> st')"
proof -
  have h: "pointer store_crashed_ok = Some \<lparr>jp_front = 512, jp_back = 768\<rparr>"
    "load_err store_crashed_ok = 0"
    "jp_back \<lparr>jp_front = 512, jp_back = 768 :: inodeno_t\<rparr> \<noteq> 0"
    "jp_front \<lparr>jp_front = 512 :: inodeno_t, jp_back = 768\<rparr>
       \<noteq> jp_back \<lparr>jp_front = 512, jp_back = 768 :: inodeno_t\<rparr>"
    "fst (fst (journaler_recover (jp_back \<lparr>jp_front = 512, jp_back = 768\<rparr>)
       store_crashed_ok)) = 0"
    "save_result store_crashed_ok \<ge> 0"
    by (simp_all add: store_crashed_ok_def store_crashed_def journaler_recover_def)
  have e: "fst (journaler_erase 768 store_crashed_ok) = 0"
    by (simp add: store_crashed_ok_def store_crashed_def journaler_erase_def)
  have l: "io_log store_crashed_ok = []"
    by (simp add: store_crashed_ok_def store_crashed_def)
  from recovery_erases_back [OF h refl, of 0 1] h(1) e show ?thesis
    by (simp add: l)
qed

text \<open>
  The claim fails when the store refuses to erase the back journal (here with \<^verbatim>\<open>EIO\<close>, -5):
  the error is logged, \<open>back\<close> is not cleared and the pointer is not saved, and the front
  journal is opened and installed all the same.
\<close>

theorem recovery_erase_failed_counterexample:
  "\<exists>res. recovery_thread 0 1 store_crashed = Some (Inr res) \<and>
         status res = 0 \<and>
         pointer (store res) = Some \<lparr>jp_front = 512, jp_back = 768\<rparr> \<and>
         jp_back (jp_final res) = 768 \<and>
         io_log (store res) = [Recover 768, Erase 768, Recover 512]"
  by (simp add: recovery_thread_def erase_back_def open_front_def jp_load_def
      journaler_recover_def journaler_erase_def Let_def ENOENT_def
      store_crashed_def old_journal_def empty_journaler_def)

subsection \<open>Reformat\<close>

text \<open>
  C8.  \<^verbatim>\<open>_reformat_journal\<close> has returned; \<open>new\<close> is the inode it chose as back: the secondary
  inode if the front was the primary one, the primary otherwise.  Then the completion got
  status 0; the pointer, in memory and in the store, has \<open>front = new\<close> and \<open>back = 0\<close>; the
  journaler installed is the one at \<open>new\<close>, created with the configured format; and the
  store has seen, in this order: the pointer saved with the new back, the head of the new
  journal written, the new journal flushed, the swapped pointer saved, the old journal
  erased, the pointer saved with \<open>back = 0\<close>.  The old journal is erased after the swapped
  pointer has been saved.  This is what opening a front journal of an older format than
  the configured one comes to.
\<close>

theorem reformat_flips_pointer:
  assumes ret: "reformat_journal nodeid fmt jp old script st = Some (Inr res)"
    and new: "new = (if jp_front jp = MDS_INO_LOG_OFFSET + nodeid
                     then MDS_INO_LOG_BACKUP_OFFSET + nodeid
                     else MDS_INO_LOG_OFFSET + nodeid)"
  shows "status res = 0 \<and>
         jp_front (jp_final res) = new \<and> jp_back (jp_final res) = 0 \<and>
         pointer (store res) = Some \<lparr>jp_front = new, jp_back = 0\<rparr> \<and>
         (\<exists>nj. active res = Some (new, nj) \<and> stream_format nj = fmt) \<and>
         io_log (store res) = io_log st @
           [SavePointer \<lparr>jp_front = jp_front jp, jp_back = new\<rparr>,
            WriteHead new, Flush new,
            SavePointer \<lparr>jp_front = new, jp_back = jp_front jp\<rparr>,
            Erase (jp_front jp),
            SavePointer \<lparr>jp_front = new, jp_back = 0\<rparr>] \<and>
         (\<forall>st0. journaler_recover (jp_front jp) st0 = ((0, old, script), st) \<and>
                stream_format old < fmt \<longrightarrow>
                open_front nodeid fmt jp st0 = Some (Inr res))"
proof -
  have n: "new = other_ino nodeid (jp_front jp)"
    using new by (simp add: other_ino_def)
  note s = reformat_journal_success [OF ret, folded n]
  have last: "\<forall>st0. journaler_recover (jp_front jp) st0 = ((0, old, script), st) \<and>
                stream_format old < fmt \<longrightarrow>
                open_front nodeid fmt jp st0 = Some (Inr res)"
    using ret by (auto simp: open_front_def)
  from s(4) obtain nj where "active res = Some (new, nj)" "stream_format nj = fmt" by blast
  then have a: "\<exists>nj. active res = Some (new, nj) \<and> stream_format nj = fmt" by blast
  have p: "pointer (store res) = Some \<lparr>jp_front = new, jp_back = 0\<rparr>"
    using s(2,3) by simp
  have f: "jp_front (jp_final res) = new" "jp_back (jp_final res) = 0"
    using s(2) by simp_all
  from s(1) f p a s(5) last show ?thesis by (intro conjI)
qed

theorem reformat_flips_pointer_witness:
  "\<exists>res. reformat_journal 0 1 \<lparr>jp_front = 512, jp_back = 0\<rparr> old_journal [Fetched 2]
            store_old = Some (Inr res) \<and>
         status res = 0 \<and>
         jp_final res = \<lparr>jp_front = 768, jp_back = 0\<rparr> \<and>
         pointer (store res) = Some \<lparr>jp_front = 768, jp_back = 0\<rparr> \<and>
         (\<exists>nj. active res = Some (768, nj) \<and> stream_format nj = 1) \<and>
         io_log (store res) =
           [SavePointer \<lparr>jp_front = 512, jp_back = 768\<rparr>, WriteHead 768, Flush 768,
            SavePointer \<lparr>jp_front = 768, jp_back = 512\<rparr>, Erase 512,
            SavePointer \<lparr>jp_front = 768, jp_back = 0\<rparr>]"
proof -
  have "\<exists>res. reformat_journal 0 1 \<lparr>jp_front = 512, jp_back = 0\<rparr> old_journal [Fetched 2]
            store_old = Some (Inr res)"
    by (simp add: reformat_journal_def is_null_def jp_save_def journaler_erase_def
        store_journal_def journaler_create_def transcribe.simps must_wait_def
        is_readable_def apply_fetch_def try_read_entry_def append_entry_def Let_def
        MDS_INO_LOG_OFFSET_def MDS_INO_LOG_BACKUP_OFFSET_def
        store_old_def old_journal_def empty_journaler_def entry1_def entry2_def)
  then obtain res where r: "reformat_journal 0 1 \<lparr>jp_front = 512, jp_back = 0\<rparr> old_journal
      [Fetched 2] store_old = Some (Inr res)" ..
  have n: "(768 :: inodeno_t) =
      (if jp_front \<lparr>jp_front = 512 :: inodeno_t, jp_back = 0 :: inodeno_t\<rparr>
          = MDS_INO_LOG_OFFSET + 0
       then MDS_INO_LOG_BACKUP_OFFSET + 0 else MDS_INO_LOG_OFFSET + 0)"
    by (simp add: MDS_INO_LOG_OFFSET_def MDS_INO_LOG_BACKUP_OFFSET_def)
  note t = reformat_flips_pointer [OF r n]
  have jf: "jp_final res = \<lparr>jp_front = 768, jp_back = 0\<rparr>"
    using t by (cases "jp_final res") simp
  from t r jf show ?thesis
    by (simp add: store_old_def)
qed

subsection \<open>Errors of the backend during replay\<close>

text \<open>
  C9, as the source has it.  The replay thread has waited for the journal (\<open>j\<close> is the
  journaler after the wait, \<open>s0\<close> the log with it) and finds the error \<open>e\<close>.
  \<^item> \<^verbatim>\<open>ENOENT\<close> on a read-only journal: the waiters are completed with \<^verbatim>\<open>EAGAIN\<close>.
  \<^item> \<^verbatim>\<open>EINVAL\<close> with \<open>read_pos < expire_pos\<close> on a read-only journal: the waiters are
    completed with \<^verbatim>\<open>EAGAIN\<close> at once; the head is not read again and no segment is trimmed.
  \<^item> \<^verbatim>\<open>EINVAL\<close> with \<open>read_pos \<ge> expire_pos\<close>: the head is read again, once, and
    \<^verbatim>\<open>standby_trim_segments\<close> is called; the waiters are completed with \<^verbatim>\<open>EAGAIN\<close> if
    \<open>read_pos\<close> is now below \<open>expire_pos\<close>, with \<^verbatim>\<open>EINVAL\<close> otherwise.
  \<^item> Any other error: the waiters are completed with that error.
\<close>

theorem replay_backend_error:
  assumes wait: "wait_readable script (journaler s) = Some (script1, j)"
    and err: "j_error j = e" and "e \<noteq> 0"
    and s0: "s0 = s\<lparr>journaler := j\<rparr>"
  shows
    "(e = - ENOENT \<and> readonly j \<longrightarrow>
        replay_thread script s = Some (Inr (finish_contexts (- EAGAIN) s0))) \<and>
     (e = - EINVAL \<and> read_pos j < expire_pos j \<and> readonly j \<longrightarrow>
        replay_thread script s = Some (Inr (finish_contexts (- EAGAIN) s0))) \<and>
     (e = - EINVAL \<and> \<not> read_pos j < expire_pos j \<longrightarrow>
        head_rereads (journaler (reread_and_trim s0)) = Suc (head_rereads j) \<and>
        replay_thread script s =
          Some (Inr (finish_contexts
            (if read_pos (journaler (reread_and_trim s0))
                  < expire_pos (journaler (reread_and_trim s0))
             then - EAGAIN else - EINVAL)
            (reread_and_trim s0)))) \<and>
     (e \<noteq> - ENOENT \<and> e \<noteq> - EINVAL \<longrightarrow>
        replay_thread script s = Some (Inr (finish_contexts e s0)))"
proof -
  have ne: "j_error j \<noteq> 0" using assms(2,3) by simp
  note th = replay_thread_error [OF wait ne]
  have c1: "e = - ENOENT \<and> readonly j \<longrightarrow>
        replay_thread script s = Some (Inr (finish_contexts (- EAGAIN) s0))"
  proof
    assume a: "e = - ENOENT \<and> readonly j"
    then have "replay_error (s\<lparr>journaler := j\<rparr>) = Inr (- EAGAIN, s0)"
      using err s0 by (simp add: replay_error_def Let_def)
    from th [OF this] show "replay_thread script s = Some (Inr (finish_contexts (- EAGAIN) s0))"
      by (simp add: EAGAIN_def)
  qed
  have c2: "e = - EINVAL \<and> read_pos j < expire_pos j \<and> readonly j \<longrightarrow>
        replay_thread script s = Some (Inr (finish_contexts (- EAGAIN) s0))"
  proof
    assume a: "e = - EINVAL \<and> read_pos j < expire_pos j \<and> readonly j"
    then have "replay_error (s\<lparr>journaler := j\<rparr>) = Inr (- EAGAIN, s0)"
      using err s0 by (simp add: replay_error_def Let_def EINVAL_def ENOENT_def)
    from th [OF this] show "replay_thread script s = Some (Inr (finish_contexts (- EAGAIN) s0))"
      by (simp add: EAGAIN_def)
  qed
  have c3: "e = - EINVAL \<and> \<not> read_pos j < expire_pos j \<longrightarrow>
        head_rereads (journaler (reread_and_trim s0)) = Suc (head_rereads j) \<and>
        replay_thread script s =
          Some (Inr (finish_contexts
            (if read_pos (journaler (reread_and_trim s0))
                  < expire_pos (journaler (reread_and_trim s0))
             then - EAGAIN else - EINVAL)
            (reread_and_trim s0)))"
  proof
    assume a: "e = - EINVAL \<and> \<not> read_pos j < expire_pos j"
    let ?r = "if read_pos (journaler (reread_and_trim s0))
                  < expire_pos (journaler (reread_and_trim s0))
             then - EAGAIN else - EINVAL"
    have re: "replay_error (s\<lparr>journaler := j\<rparr>) = Inr (?r, reread_and_trim s0)"
      using a err s0
      by (simp add: replay_error_def Let_def EINVAL_def ENOENT_def reread_and_trim_def
          reread_head_def split_beta)
    have "?r \<noteq> 0" by (simp add: EAGAIN_def EINVAL_def)
    from th [OF re this]
    have "replay_thread script s = Some (Inr (finish_contexts ?r (reread_and_trim s0)))" .
    moreover have "head_rereads (journaler (reread_and_trim s0)) = Suc (head_rereads j)"
      using s0 by (simp add: reread_and_trim_def standby_trim_segments_def Let_def
          reread_head_def)
    ultimately show "head_rereads (journaler (reread_and_trim s0)) = Suc (head_rereads j) \<and>
        replay_thread script s = Some (Inr (finish_contexts ?r (reread_and_trim s0)))"
      by (intro conjI)
  qed
  have c4: "e \<noteq> - ENOENT \<and> e \<noteq> - EINVAL \<longrightarrow>
        replay_thread script s = Some (Inr (finish_contexts e s0))"
  proof
    assume a: "e \<noteq> - ENOENT \<and> e \<noteq> - EINVAL"
    then have "replay_error (s\<lparr>journaler := j\<rparr>) = Inr (e, s0)"
      using err s0 by (simp add: replay_error_def Let_def)
    from th [OF this assms(3)] show "replay_thread script s = Some (Inr (finish_contexts e s0))" .
  qed
  from c1 c2 c3 c4 show ?thesis by (intro conjI)
qed

theorem replay_backend_error_witness:
  "wait_readable [Failed (- 22)] (journaler log_standby)
     = Some ([], (journaler log_standby)\<lparr>j_error := - 22\<rparr>) \<and>
   - 22 = - EINVAL \<and>
   \<not> read_pos (journaler log_standby) < expire_pos (journaler log_standby) \<and>
   head_rereads (journaler (reread_and_trim
       (log_standby\<lparr>journaler := (journaler log_standby)\<lparr>j_error := - 22\<rparr>\<rparr>))) = 1 \<and>
   segments (reread_and_trim
       (log_standby\<lparr>journaler := (journaler log_standby)\<lparr>j_error := - 22\<rparr>\<rparr>)) = [] \<and>
   replay_thread [Failed (- 22)] log_standby =
     Some (Inr (finish_contexts (- EAGAIN)
       (reread_and_trim
          (log_standby\<lparr>journaler := (journaler log_standby)\<lparr>j_error := - 22\<rparr>\<rparr>))))"
proof -
  let ?j = "(journaler log_standby)\<lparr>j_error := - 22\<rparr>"
  have w: "wait_readable [Failed (- 22)] (journaler log_standby) = Some ([], ?j)"
    by (simp add: must_wait_def is_readable_def apply_fetch_def log_standby_def log0_def
        journaler0_def)
  have e: "j_error ?j = - 22" "(- 22 :: int) \<noteq> 0" by simp_all
  have t: "segments (reread_and_trim (log_standby\<lparr>journaler := ?j\<rparr>)) = []"
    by (simp add: reread_and_trim_def standby_trim_segments_def reread_head_def Let_def
        standby_trim_loop.simps remove_oldest_segment_def log_standby_def log0_def journaler0_def)
  from replay_backend_error [OF w e refl] w t show ?thesis
    by (simp add: EINVAL_def reread_and_trim_def standby_trim_segments_def reread_head_def
        Let_def standby_trim_loop.simps remove_oldest_segment_def
        log_standby_def log0_def journaler0_def)
qed

text \<open>
  The claim has the two branches of \<^verbatim>\<open>EINVAL\<close> the other way round.  In \<open>log_behind\<close> the
  error is \<^verbatim>\<open>EINVAL\<close> and the read position is below the expire position: the replay
  completes its waiter with \<^verbatim>\<open>EAGAIN\<close>, but the head has not been read again and
  \<^verbatim>\<open>standby_trim_segments\<close>, which would have removed the first segment, has not been called.
\<close>

theorem replay_einval_behind_counterexample:
  "j_error (journaler log_behind) = - EINVAL \<and>
   read_pos (journaler log_behind) < expire_pos (journaler log_behind) \<and>
   (\<exists>s'. replay_thread [] log_behind = Some (Inr s') \<and>
         completed s' = [(9, - EAGAIN)] \<and>
         head_rereads (journaler s') = head_rereads (journaler log_behind) \<and>
         segments s' = segments log_behind \<and>
         cache_trims (mds s') = cache_trims (mds log_behind)) \<and>
   length (segments (standby_trim_segments log_behind)) < length (segments log_behind)"
  by (simp add: replay_thread_def replay_loop.simps must_wait_def is_readable_def
      replay_error_def finish_contexts_def standby_trim_segments_def Let_def
      standby_trim_loop.simps remove_oldest_segment_def EINVAL_def ENOENT_def EAGAIN_def
      log_behind_def log_standby_def log0_def journaler0_def mds0_def)

subsection \<open>The log is disabled\<close>

text \<open>
  C10.  When the option \<^verbatim>\<open>mds_log\<close> is false, \<^verbatim>\<open>submit_entry\<close> (whose two assertions hold)
  returns the state it was given but for the current entry, which is cleared, and the
  completion of the context it was given, with status 0: nothing is appended, no segment
  and no counter changes.  \<^verbatim>\<open>wait_for_safe\<close> completes its context with 0 and changes
  nothing else.
\<close>

theorem submit_entry_log_disabled:
  "\<not> mds_log (conf s) \<Longrightarrow> \<not> is_any_replay (mds s) \<Longrightarrow> cur_event s = Some (ev_id le) \<Longrightarrow>
     submit_entry le None s = Inr (s\<lparr>cur_event := None\<rparr>) \<and>
     submit_entry le (Some c) s =
       Inr (s\<lparr>cur_event := None, completed := completed s @ [(c, 0)]\<rparr>) \<and>
     wait_for_safe c s = s\<lparr>completed := completed s @ [(c, 0)]\<rparr>"
  by (simp add: wait_for_safe_def complete_def submit_entry.simps)

theorem submit_entry_log_disabled_witness:
  "\<not> mds_log (conf log0_disabled) \<and> \<not> is_any_replay (mds log0_disabled) \<and>
   cur_event log0_disabled = Some (ev_id ev7) \<and>
   submit_entry ev7 None log0_disabled = Inr (log0_disabled\<lparr>cur_event := None\<rparr>) \<and>
   submit_entry ev7 (Some 4) log0_disabled =
     Inr (log0_disabled\<lparr>cur_event := None, completed := [(4, 0)]\<rparr>) \<and>
   wait_for_safe 4 log0_disabled = log0_disabled\<lparr>completed := [(4, 0)]\<rparr>"
  using submit_entry_log_disabled [of log0_disabled ev7 4]
  by (simp add: log0_disabled_def log0_def conf0_def mds0_def ev7_def)

end
